theory Spec2Isabelle
  imports Complex_Main
begin

section \<open>Text, characters and the Unicode tables\<close>

text \<open>
  A Python \<open>str\<close> is a sequence of Unicode code points, and \<open>len\<close> counts code points.
  A character is modelled by its code point (a natural number) and a string by the list
  of its code points. \<open>T\<close> turns an ASCII literal into such a list.
\<close>

type_synonym uchar = nat
type_synonym ustr = "nat list"

definition T :: "string \<Rightarrow> ustr" where
  "T s = map of_char s"

text \<open>
  The source consults the Unicode character database of the Python runtime through
  \<open>unicodedata.normalize\<close>, the regex classes \<open>\d\<close> and \<open>\w\<close>, the flag
  \<open>re.IGNORECASE\<close>, \<open>str.islower\<close> and \<open>str.isalnum\<close>. These tables are not part
  of the repository, so they are a parameter of the model:
  \<^item> \<open>nfc s\<close> is \<open>unicodedata.normalize('NFC', s)\<close>;
  \<^item> \<open>isdecimal c\<close> says that \<open>\d\<close> matches \<open>c\<close>;
  \<^item> \<open>islower c\<close> and \<open>isalnum c\<close> are \<open>str.islower\<close> and \<open>str.isalnum\<close> on the
    one-character string \<open>c\<close>;
  \<^item> \<open>ieq p c\<close> says that the pattern literal \<open>p\<close> matches the text character \<open>c\<close>
    under \<open>re.IGNORECASE\<close>.
\<close>

record ucd =
  nfc :: "ustr \<Rightarrow> ustr"
  isdecimal :: "uchar \<Rightarrow> bool"
  islower :: "uchar \<Rightarrow> bool"
  isalnum :: "uchar \<Rightarrow> bool"
  ieq :: "uchar \<Rightarrow> uchar \<Rightarrow> bool"

text \<open>
  Whitespace is the same set for \<open>str.strip()\<close>, \<open>str.split()\<close>, \<open>str.isspace()\<close> and
  the regex class \<open>\s\<close> on \<open>str\<close> patterns: the code points for which CPython's
  \<open>Py_UNICODE_ISSPACE\<close> holds.
\<close>

definition isspace :: "uchar \<Rightarrow> bool" where
  "isspace c \<longleftrightarrow>
     (9 \<le> c \<and> c \<le> 13) \<or> (28 \<le> c \<and> c \<le> 32) \<or> c = 133 \<or> c = 160 \<or> c = 5760 \<or>
     (8192 \<le> c \<and> c \<le> 8202) \<or> c = 8232 \<or> c = 8233 \<or> c = 8239 \<or> c = 8287 \<or> c = 12288"

definition isword :: "ucd \<Rightarrow> uchar \<Rightarrow> bool" where
  \<comment> \<open>the regex class \<open>\w\<close>: alphanumeric or underscore\<close>
  "isword U c \<longleftrightarrow> isalnum U c \<or> c = 95"

definition upperAZ :: "uchar \<Rightarrow> bool" where
  "upperAZ c \<longleftrightarrow> 65 \<le> c \<and> c \<le> 90"

definition lowerAZ :: "uchar \<Rightarrow> bool" where
  "lowerAZ c \<longleftrightarrow> 97 \<le> c \<and> c \<le> 122"

definition dot :: "uchar \<Rightarrow> bool" where
  \<comment> \<open>the regex \<open>.\<close> without \<open>re.DOTALL\<close>: anything but a newline\<close>
  "dot c \<longleftrightarrow> c \<noteq> 10"

definition strip :: "ustr \<Rightarrow> ustr" where
  \<comment> \<open>\<open>s.strip()\<close>\<close>
  "strip s = rev (dropWhile isspace (rev (dropWhile isspace s)))"

fun split_nl :: "ustr \<Rightarrow> ustr list" where
  \<comment> \<open>\<open>s.split('\n')\<close>: never empty, \<open>''.split('\n') == ['']\<close>\<close>
  "split_nl [] = [[]]"
| "split_nl (c # cs) =
     (if c = 10 then [] # split_nl cs
      else (case split_nl cs of [] \<Rightarrow> [[c]] | l # ls \<Rightarrow> (c # l) # ls))"

fun join_nl :: "ustr list \<Rightarrow> ustr" where
  \<comment> \<open>\<open>'\n'.join(ls)\<close>\<close>
  "join_nl [] = []"
| "join_nl [l] = l"
| "join_nl (l # ls) = l @ 10 # join_nl ls"

subsection \<open>Regular expressions\<close>

text \<open>
  The patterns of the source repeat character classes only, so a pattern is built from
  single characters of a class (\<open>Atom\<close>), a class repeated between \<open>lo\<close> and \<open>hi\<close> times
  (\<open>Rep\<close>, with \<open>None\<close> for no upper bound), alternatives and sequences. Whether a pattern
  matches does not depend on greedy or lazy repetition, so \<open>.{0,50}?\<close> and \<open>.{0,50}\<close>
  are the same \<open>Rep\<close>. Matching is by derivatives.
\<close>

datatype rx =
    Zero
  | One
  | Atom "uchar \<Rightarrow> bool"
  | Rep "uchar \<Rightarrow> bool" nat "nat option"
  | Alt rx rx
  | Seq rx rx

fun nullable :: "rx \<Rightarrow> bool" where
  "nullable Zero = False"
| "nullable One = True"
| "nullable (Atom p) = False"
| "nullable (Rep p lo hi) = (lo = 0)"
| "nullable (Alt r s) = (nullable r \<or> nullable s)"
| "nullable (Seq r s) = (nullable r \<and> nullable s)"

fun alt :: "rx \<Rightarrow> rx \<Rightarrow> rx" where
  "alt Zero s = s"
| "alt r Zero = r"
| "alt r s = Alt r s"

fun seq :: "rx \<Rightarrow> rx \<Rightarrow> rx" where
  "seq Zero s = Zero"
| "seq One s = s"
| "seq r s = Seq r s"

fun deriv :: "uchar \<Rightarrow> rx \<Rightarrow> rx" where
  "deriv c Zero = Zero"
| "deriv c One = Zero"
| "deriv c (Atom p) = (if p c then One else Zero)"
| "deriv c (Rep p lo hi) =
     (if p c \<and> hi \<noteq> Some 0 then Rep p (lo - 1) (map_option (\<lambda>h. h - 1) hi) else Zero)"
| "deriv c (Alt r s) = alt (deriv c r) (deriv c s)"
| "deriv c (Seq r s) =
     (if nullable r then alt (seq (deriv c r) s) (deriv c s) else seq (deriv c r) s)"

fun accepts :: "rx \<Rightarrow> ustr \<Rightarrow> bool" where
  \<comment> \<open>the pattern matches the whole string\<close>
  "accepts r [] = nullable r"
| "accepts r (c # cs) = accepts (deriv c r) cs"

definition anything :: rx where
  "anything = Rep (\<lambda>c. True) 0 None"

fun lit :: "ustr \<Rightarrow> rx" where
  \<comment> \<open>a literal string\<close>
  "lit [] = One"
| "lit (c # cs) = Seq (Atom (\<lambda>x. x = c)) (lit cs)"

fun ilit :: "ucd \<Rightarrow> ustr \<Rightarrow> rx" where
  \<comment> \<open>a literal string under \<open>re.IGNORECASE\<close>\<close>
  "ilit U [] = One"
| "ilit U (c # cs) = Seq (Atom (ieq U c)) (ilit U cs)"

text \<open>
  A pattern of the source is a regular expression and a flag that says whether it ends
  in \<open>$\<close>. Without \<open>re.MULTILINE\<close>, \<open>$\<close> matches at the end of the string and before a
  newline that ends the string. \<open>re.match\<close> looks for a match at the start of the string,
  \<open>re.search\<close> anywhere in it. A leading \<open>^\<close> changes nothing in either (no pattern
  used with \<open>re.search\<close> without \<open>re.MULTILINE\<close> has one).
\<close>

type_synonym pattern = "rx \<times> bool"

fun at_end :: "pattern \<Rightarrow> ustr \<Rightarrow> bool" where
  "at_end (r, False) s = accepts (Seq r anything) s"
| "at_end (r, True) s =
     (accepts r s \<or> (s \<noteq> [] \<and> last s = 10 \<and> accepts r (butlast s)))"

definition re_match :: "pattern \<Rightarrow> ustr \<Rightarrow> bool" where
  "re_match p s = at_end p s"

fun suffixes_of :: "ustr \<Rightarrow> ustr list" where
  "suffixes_of [] = [[]]"
| "suffixes_of (c # cs) = (c # cs) # suffixes_of cs"

definition re_search :: "pattern \<Rightarrow> ustr \<Rightarrow> bool" where
  "re_search p s = list_ex (at_end p) (suffixes_of s)"

fun line_starts :: "ustr \<Rightarrow> ustr list" where
  \<comment> \<open>the suffixes that follow a newline\<close>
  "line_starts [] = []"
| "line_starts (c # cs) = (if c = 10 then cs # line_starts cs else line_starts cs)"

definition re_search_multiline :: "pattern \<Rightarrow> ustr \<Rightarrow> bool" where
  \<comment> \<open>\<open>re.search\<close> with \<open>re.MULTILINE\<close> of a pattern that starts with \<open>^\<close>: a match at
      the start of the string or after a newline\<close>
  "re_search_multiline p s = list_ex (at_end p) (s # line_starts s)"

section \<open>Structure extraction\<close>

datatype content_type =
  TITLE | HEADING | SUBHEADING | PARAGRAPH | LIST_ITEM | TABLE | CODE_BLOCK | QUOTE
  | METADATA | UNKNOWN

datatype error = IndexError

text \<open>
  An element id is the string \<open>f"element_{position}"\<close>; it is represented by the position
  it is formatted from. The metadata dictionary of an element holds \<open>line_start\<close> and
  \<open>line_end\<close>. No function of the source writes \<open>children_ids\<close>, so it stays empty.
\<close>

record DocumentElement =
  content :: ustr
  element_type :: content_type
  level :: int
  position :: nat
  line_start :: nat
  line_end :: int
  parent_id :: "nat option"
  children_ids :: "nat list"

record TocEntry =
  title :: ustr
  toc_level :: int
  toc_position :: nat
  element_id :: nat

text \<open>
  The document-level metadata dictionary (counts of elements, words, characters and lines,
  and the title) is computed from the elements and the text and read by nothing else here;
  it is left out of the record.
\<close>

record DocumentStructure =
  elements :: "DocumentElement list"
  hierarchy :: "nat \<rightharpoonup> nat list"
  table_of_contents :: "TocEntry list"

datatype doc_format = Markdown | PlainText

subsection \<open>The patterns of \<open>DocumentParser.__init__\<close>\<close>

definition level_func_md :: "ustr \<Rightarrow> error + int" where
  \<comment> \<open>\<open>lambda m: len(m.group(1).split()[0])\<close> on a match of \<open>^#{1,6}\s+(.+)$\<close>: group 1
      starts after the marker and the whitespace that follows it, \<open>split()[0]\<close> is its
      first word, and raises IndexError when the group has no word\<close>
  "level_func_md line =
     (let g = dropWhile isspace (dropWhile (\<lambda>c. c = 35) line)
      in if g = [] then Inl IndexError
         else Inr (int (length (takeWhile (\<lambda>c. \<not> isspace c) g))))"

definition heading_md1 :: pattern where
  \<comment> \<open>\<open>^#{1,6}\s+(.+)$\<close>\<close>
  "heading_md1 = (Seq (Rep (\<lambda>c. c = 35) 1 (Some 6)) (Seq (Rep isspace 1 None) (Rep dot 1 None)), True)"

definition heading_md2 :: pattern where
  \<comment> \<open>\<open>^([A-Z][^.]*\.)$\<close>\<close>
  "heading_md2 = (Seq (Atom upperAZ) (Seq (Rep (\<lambda>c. c \<noteq> 46) 0 None) (Atom (\<lambda>c. c = 46))), True)"

definition heading_g1 :: pattern where
  \<comment> \<open>\<open>^[A-Z][A-Z\s]{10,}$\<close>\<close>
  "heading_g1 = (Seq (Atom upperAZ) (Rep (\<lambda>c. upperAZ c \<or> isspace c) 10 None), True)"

definition heading_g2 :: "ucd \<Rightarrow> pattern" where
  \<comment> \<open>\<open>^\d+\.\s+[A-Z]\<close>\<close>
  "heading_g2 U =
     (Seq (Rep (isdecimal U) 1 None) (Seq (Atom (\<lambda>c. c = 46)) (Seq (Rep isspace 1 None) (Atom upperAZ))),
      False)"

definition heading_g3 :: pattern where
  \<comment> \<open>\<open>^[A-Z][a-z\s]+:$\<close>\<close>
  "heading_g3 =
     (Seq (Atom upperAZ) (Seq (Rep (\<lambda>c. lowerAZ c \<or> isspace c) 1 None) (Atom (\<lambda>c. c = 58))), True)"

definition heading_patterns_markdown :: "(pattern \<times> (ustr \<Rightarrow> error + int)) list" where
  "heading_patterns_markdown = [(heading_md1, level_func_md), (heading_md2, \<lambda>m. Inr 1)]"

definition heading_patterns_general :: "ucd \<Rightarrow> (pattern \<times> (ustr \<Rightarrow> error + int)) list" where
  "heading_patterns_general U =
     [(heading_g1, \<lambda>m. Inr 1), (heading_g2 U, \<lambda>m. Inr 2), (heading_g3, \<lambda>m. Inr 2)]"

definition heading_patterns_get :: "doc_format \<Rightarrow> (pattern \<times> (ustr \<Rightarrow> error + int)) list" where
  \<comment> \<open>\<open>self.heading_patterns.get(doc_format, [])\<close>: there is no key \<open>'plain_text'\<close>\<close>
  "heading_patterns_get fmt = (case fmt of Markdown \<Rightarrow> heading_patterns_markdown | PlainText \<Rightarrow> [])"

definition list_patterns :: "ucd \<Rightarrow> pattern list" where
  \<comment> \<open>\<open>^[\s]*[-\<bullet>*]\s+(.+)$\<close>, \<open>^[\s]*\d+\.\s+(.+)$\<close>, \<open>^[\s]*[a-zA-Z]\.\s+(.+)$\<close>; the
      bullet is U+2022\<close>
  "list_patterns U =
     [(Seq (Rep isspace 0 None) (Seq (Atom (\<lambda>c. c = 45 \<or> c = 8226 \<or> c = 42))
         (Seq (Rep isspace 1 None) (Rep dot 1 None))), True),
      (Seq (Rep isspace 0 None) (Seq (Rep (isdecimal U) 1 None) (Seq (Atom (\<lambda>c. c = 46))
         (Seq (Rep isspace 1 None) (Rep dot 1 None)))), True),
      (Seq (Rep isspace 0 None) (Seq (Atom (\<lambda>c. lowerAZ c \<or> upperAZ c)) (Seq (Atom (\<lambda>c. c = 46))
         (Seq (Rep isspace 1 None) (Rep dot 1 None)))), True)]"

definition pipe_row :: pattern where
  \<comment> \<open>\<open>\|.*\|\<close>\<close>
  "pipe_row = (Seq (Atom (\<lambda>c. c = 124)) (Seq (Rep dot 0 None) (Atom (\<lambda>c. c = 124))), False)"

definition table_patterns :: "pattern list" where
  \<comment> \<open>\<open>\|.*\|\<close> and \<open>^\s*\+[-+\s]+\+\s*$\<close>\<close>
  "table_patterns =
     [pipe_row,
      (Seq (Rep isspace 0 None) (Seq (Atom (\<lambda>c. c = 43))
         (Seq (Rep (\<lambda>c. c = 45 \<or> c = 43 \<or> isspace c) 1 None)
            (Seq (Atom (\<lambda>c. c = 43)) (Rep isspace 0 None)))), True)]"

definition code_patterns :: "ucd \<Rightarrow> pattern list" where
  \<comment> \<open>\<open>^```[\w]*\n.*?\n```$\<close> and \<open>^\s{4,}.*$\<close>\<close>
  "code_patterns U =
     [(Seq (lit [96, 96, 96]) (Seq (Rep (isword U) 0 None) (Seq (Atom (\<lambda>c. c = 10))
         (Seq (Rep dot 0 None) (Seq (Atom (\<lambda>c. c = 10)) (lit [96, 96, 96]))))), True),
      (Seq (Rep isspace 4 None) (Rep dot 0 None), True)]"

definition hash_marker :: pattern where
  \<comment> \<open>\<open>^#{1,6}\s+\<close>\<close>
  "hash_marker = (Seq (Rep (\<lambda>c. c = 35) 1 (Some 6)) (Rep isspace 1 None), False)"

definition table_shape :: pattern where
  \<comment> \<open>\<open>^[\s|\|+-]\<close>\<close>
  "table_shape = (Atom (\<lambda>c. isspace c \<or> c = 124 \<or> c = 43 \<or> c = 45), False)"

subsection \<open>The parser\<close>

definition detect_format :: "ustr \<Rightarrow> string \<Rightarrow> doc_format" where
  "detect_format cont file_type =
     (if file_type = ''md'' then Markdown
      else if re_search_multiline hash_marker cont then Markdown
      else if re_search pipe_row cont then Markdown
      else PlainText)"

fun extract_table_from :: "ustr list \<Rightarrow> ustr list" where
  \<comment> \<open>the loop of \<open>_extract_table\<close> on the lines from \<open>start_idx\<close> on\<close>
  "extract_table_from [] = []"
| "extract_table_from (l # ls) =
     l # (case ls of [] \<Rightarrow> []
          | n # _ \<Rightarrow> if strip n = [] then []
                     else if \<not> re_match table_shape n then []
                     else extract_table_from ls)"

definition extract_table :: "ustr list \<Rightarrow> nat \<Rightarrow> ustr list" where
  "extract_table lines start_idx = extract_table_from (drop start_idx lines)"

definition startswith :: "ustr \<Rightarrow> ustr \<Rightarrow> bool" where
  "startswith s p \<longleftrightarrow> take (length p) s = p"

definition extract_code_block :: "ustr list \<Rightarrow> nat \<Rightarrow> error + ustr list" where
  "extract_code_block lines start_idx =
     (if start_idx \<ge> length lines then Inl IndexError
      else let line = strip (lines ! start_idx) in
        if startswith line [96, 96, 96] then
          (let rest = drop (start_idx + 1) lines;
               body = takeWhile (\<lambda>l. \<not> startswith (strip l) [96, 96, 96]) rest;
               after = dropWhile (\<lambda>l. \<not> startswith (strip l) [96, 96, 96]) rest
           in Inr (line # body @ (case after of [] \<Rightarrow> [] | fence # _ \<Rightarrow> [fence])))
        else Inr (takeWhile (\<lambda>l. startswith l [32, 32, 32, 32]) (drop start_idx lines)))"

definition is_structured_line :: "ucd \<Rightarrow> ustr \<Rightarrow> bool" where
  "is_structured_line U l =
     (let line = strip l in
        if re_match hash_marker line then True
        else if list_ex (\<lambda>p. re_match p line) (list_patterns U) then True
        else if list_ex (\<lambda>p. re_match p line) table_patterns then True
        else False)"

fun extract_paragraph_from :: "ucd \<Rightarrow> ustr list \<Rightarrow> ustr list" where
  \<comment> \<open>the loop of \<open>_extract_paragraph\<close> on the lines from \<open>start_idx\<close> on\<close>
  "extract_paragraph_from U [] = []"
| "extract_paragraph_from U (l # ls) =
     (let line = strip l in
        if line = [] then []
        else if is_structured_line U line then []
        else line # extract_paragraph_from U ls)"

definition extract_paragraph :: "ucd \<Rightarrow> ustr list \<Rightarrow> nat \<Rightarrow> ustr list" where
  "extract_paragraph U lines start_idx = extract_paragraph_from U (drop start_idx lines)"

fun first_heading :: "(pattern \<times> (ustr \<Rightarrow> error + int)) list \<Rightarrow> ustr \<Rightarrow> (error + int) option" where
  \<comment> \<open>the first pattern of the list that matches, with its level function applied\<close>
  "first_heading [] line = None"
| "first_heading ((p, level_func) # ps) line =
     (if re_match p line then Some (level_func line) else first_heading ps line)"

definition identify_element ::
  "ucd \<Rightarrow> ustr list \<Rightarrow> nat \<Rightarrow> doc_format \<Rightarrow> error + (content_type \<times> int \<times> ustr list \<times> nat)" where
  "identify_element U lines start_idx fmt =
     (if start_idx \<ge> length lines then Inl IndexError
      else let line = strip (lines ! start_idx) in
        case first_heading (heading_patterns_get fmt) line of
          Some (Inl e) \<Rightarrow> Inl e
        | Some (Inr lv) \<Rightarrow> Inr (HEADING, lv, [line], 1)
        | None \<Rightarrow>
        (case first_heading (heading_patterns_general U) line of
          Some (Inl e) \<Rightarrow> Inl e
        | Some (Inr lv) \<Rightarrow> Inr (HEADING, lv, [line], 1)
        | None \<Rightarrow>
        if list_ex (\<lambda>p. re_match p line) (list_patterns U) then Inr (LIST_ITEM, 1, [line], 1)
        else if list_ex (\<lambda>p. re_match p line) table_patterns then
          (let table_lines = extract_table lines start_idx
           in Inr (TABLE, 1, table_lines, length table_lines))
        else if list_ex (\<lambda>p. re_match p line) (code_patterns U) then
          (case extract_code_block lines start_idx of
             Inl e \<Rightarrow> Inl e
           | Inr code_lines \<Rightarrow> Inr (CODE_BLOCK, 1, code_lines, length code_lines))
        else Inr (UNKNOWN, 0, [], 0)))"

definition new_element :: "ustr list \<Rightarrow> content_type \<Rightarrow> int \<Rightarrow> nat \<Rightarrow> nat \<Rightarrow> nat \<Rightarrow> DocumentElement" where
  \<comment> \<open>\<open>DocumentElement(content='\n'.join(content_lines), ..., metadata={'line_start': i,
      'line_end': i + consumed - 1})\<close>\<close>
  "new_element content_lines ty lv pos i consumed =
     \<lparr>content = join_nl content_lines, element_type = ty, level = lv, position = pos,
      line_start = i, line_end = int i + int consumed - 1, parent_id = None, children_ids = []\<rparr>"

text \<open>
  The loop of \<open>_parse_elements\<close> advances by the number of lines the element consumed.
  That number can be zero, and then the loop never ends: the model returns \<open>None\<close> when
  the source does not return, \<open>Some (Inl e)\<close> when it raises and \<open>Some (Inr es)\<close> when it
  returns the list \<open>es\<close>.
\<close>

partial_function (option) parse_elements_loop ::
  "ucd \<Rightarrow> ustr list \<Rightarrow> doc_format \<Rightarrow> nat \<Rightarrow> nat \<Rightarrow> DocumentElement list
     \<Rightarrow> (error + DocumentElement list) option" where
  "parse_elements_loop U lines fmt i pos es =
     (if i < length lines then
        (if strip (lines ! i) = [] then parse_elements_loop U lines fmt (i + 1) pos es
         else case identify_element U lines i fmt of
           Inl e \<Rightarrow> Some (Inl e)
         | Inr (ty, lv, content_lines, consumed) \<Rightarrow>
             if ty \<noteq> UNKNOWN then
               parse_elements_loop U lines fmt (i + consumed) (pos + 1)
                 (es @ [new_element content_lines ty lv pos i consumed])
             else
               (let paragraph_lines = extract_paragraph U lines i in
                parse_elements_loop U lines fmt (i + length paragraph_lines) (pos + 1)
                  (es @ [new_element paragraph_lines PARAGRAPH 0 pos i (length paragraph_lines)])))
      else Some (Inr es))"

definition parse_elements :: "ucd \<Rightarrow> ustr list \<Rightarrow> doc_format \<Rightarrow> (error + DocumentElement list) option" where
  "parse_elements U lines fmt = parse_elements_loop U lines fmt 0 0 []"

text \<open>
  \<open>_build_hierarchy\<close> walks the elements with a stack of \<open>(element_id, level)\<close> (the top
  is the head of the list here), sets \<open>parent_id\<close> on the element objects and fills the
  dictionary \<open>hierarchy\<close>. The model returns the elements as the walk leaves them,
  together with the dictionary.
\<close>

fun pop_stack :: "(nat \<times> int) list \<Rightarrow> int \<Rightarrow> (nat \<times> int) list" where
  \<comment> \<open>\<open>while parent_stack and parent_stack[-1][1] >= element.level: parent_stack.pop()\<close>\<close>
  "pop_stack [] lv = []"
| "pop_stack ((pid, plv) # st) lv = (if plv \<ge> lv then pop_stack st lv else (pid, plv) # st)"

definition is_heading :: "DocumentElement \<Rightarrow> bool" where
  \<comment> \<open>\<open>element.element_type in [ContentType.TITLE, ContentType.HEADING]\<close>\<close>
  "is_heading e \<longleftrightarrow> element_type e = TITLE \<or> element_type e = HEADING"

fun build_hierarchy_loop ::
  "DocumentElement list \<Rightarrow> (nat \<times> int) list \<Rightarrow> (nat \<rightharpoonup> nat list)
     \<Rightarrow> DocumentElement list \<times> (nat \<rightharpoonup> nat list)" where
  "build_hierarchy_loop [] st h = ([], h)"
| "build_hierarchy_loop (e # es) st h =
     (let eid = position e;
          st1 = pop_stack st (level e);
          (e', h') = (case st1 of
                        [] \<Rightarrow> (e, h)
                      | (pid, _) # _ \<Rightarrow>
                          (e\<lparr>parent_id := Some pid\<rparr>,
                           h(pid \<mapsto> (case h pid of None \<Rightarrow> [] | Some cs \<Rightarrow> cs) @ [eid])));
          st2 = (if is_heading e then (eid, level e) # st1 else st1);
          (es', h'') = build_hierarchy_loop es st2 h'
      in (e' # es', h''))"

definition build_hierarchy :: "DocumentElement list \<Rightarrow> DocumentElement list \<times> (nat \<rightharpoonup> nat list)" where
  "build_hierarchy es = build_hierarchy_loop es [] Map.empty"

definition generate_table_of_contents :: "DocumentElement list \<Rightarrow> TocEntry list" where
  "generate_table_of_contents es =
     map (\<lambda>e. \<lparr>title = content e, toc_level = level e, toc_position = position e,
               element_id = position e\<rparr>)
       (filter is_heading es)"

definition parse_document :: "ucd \<Rightarrow> ustr \<Rightarrow> string \<Rightarrow> (error + DocumentStructure) option" where
  "parse_document U cont file_type =
     (if cont = [] \<or> strip cont = [] then
        Some (Inr \<lparr>elements = [], hierarchy = Map.empty, table_of_contents = []\<rparr>)
      else
        let lines = split_nl cont;
            fmt = detect_format cont file_type
        in case parse_elements U lines fmt of
             None \<Rightarrow> None
           | Some (Inl e) \<Rightarrow> Some (Inl e)
           | Some (Inr es) \<Rightarrow>
               (let (es', h) = build_hierarchy es
                in Some (Inr \<lparr>elements = es', hierarchy = h,
                              table_of_contents = generate_table_of_contents es'\<rparr>)))"

definition get_element_by_id :: "DocumentStructure \<Rightarrow> nat \<Rightarrow> DocumentElement option" where
  \<comment> \<open>the first element whose id is the given one\<close>
  "get_element_by_id S eid = find (\<lambda>e. position e = eid) (elements S)"

text \<open>
  A sample of the Unicode tables for evaluating the model on concrete texts. Its
  character classes agree with the tables of Python on the code points below 256: there,
  \<open>\d\<close> matches the ASCII digits only, the lowercase and alphanumeric characters are
  those listed, and case-insensitive matching of a literal folds the ASCII letters. Its
  NFC form is right on strings of code points below 256 and U+0958: each U+0958 (a
  composition exclusion, whose canonical decomposition is U+0915 U+093C) is replaced and
  the rest is left as it is. The classes are not meant for code points from 256 on, and
  no result below evaluates them there.
\<close>

definition ucd_sample :: ucd where
  "ucd_sample =
     \<lparr>nfc = (\<lambda>s. concat (map (\<lambda>c. if c = 2392 then [2325, 2364] else [c]) s)),
      isdecimal = (\<lambda>c. 48 \<le> c \<and> c \<le> 57),
      islower = (\<lambda>c. lowerAZ c \<or> c = 170 \<or> c = 181 \<or> c = 186 \<or> (223 \<le> c \<and> c \<le> 246)
                     \<or> (248 \<le> c \<and> c \<le> 255)),
      isalnum = (\<lambda>c. (48 \<le> c \<and> c \<le> 57) \<or> upperAZ c \<or> lowerAZ c \<or> c = 170 \<or> c = 178
                     \<or> c = 179 \<or> c = 181 \<or> c = 185 \<or> c = 186 \<or> (188 \<le> c \<and> c \<le> 190)
                     \<or> (192 \<le> c \<and> c \<le> 214) \<or> (216 \<le> c \<and> c \<le> 246) \<or> (248 \<le> c \<and> c \<le> 255)),
      ieq = (\<lambda>p c. (if upperAZ c then c + 32 else c) = (if upperAZ p then p + 32 else p))\<rparr>"

section \<open>Normalization and cleaning\<close>

datatype CleaningLevel = MINIMAL | STANDARD | AGGRESSIVE

record CleaningStats =
  original_chars :: nat
  cleaned_chars :: nat
  headers_removed :: nat
  footers_removed :: nat
  unicode_fixed :: nat
  whitespace_normalized :: nat
  line_breaks_fixed :: nat
  invisible_chars_removed :: nat
  language_detected :: ustr

definition new_stats :: CleaningStats where
  \<comment> \<open>\<open>CleaningStats()\<close>\<close>
  "new_stats =
     \<lparr>original_chars = 0, cleaned_chars = 0, headers_removed = 0, footers_removed = 0,
      unicode_fixed = 0, whitespace_normalized = 0, line_breaks_fixed = 0,
      invisible_chars_removed = 0, language_detected = T ''unknown''\<rparr>"

text \<open>
  Python's floats are modelled by the real numbers: the quotients and the comparisons of
  the source are exact here.
\<close>

definition get_reduction_percentage :: "CleaningStats \<Rightarrow> real" where
  "get_reduction_percentage st =
     (if original_chars st = 0 then 0
      else ((real (original_chars st) - real (cleaned_chars st)) / real (original_chars st)) * 100)"

text \<open>
  The metadata dictionary of a normalized document (the cleaning level and the numbers of
  elements processed and kept) is left out of the record.
\<close>

record NormalizedDocument =
  original_structure :: DocumentStructure
  cleaned_elements :: "DocumentElement list"
  cleaning_stats :: CleaningStats
  detected_language :: ustr
  quality_score :: real

subsection \<open>The patterns of \<open>DocumentNormalizer.__init__\<close>\<close>

definition header_patterns :: "ucd \<Rightarrow> pattern list" where
  \<comment> \<open>\<open>^.{0,50}?(?:page|p\.)\s*\d+$\<close>, \<open>^.{0,30}?(?:confidential|draft|internal)\<close>,
      \<open>^.{0,30}?\d{1,2}/\d{1,2}/\d{2,4}\<close>, \<open>^.{0,30}?(?:chapter|ch\.|section)\s+\d+\<close>,
      all used with \<open>re.IGNORECASE\<close>\<close>
  "header_patterns U =
     [(Seq (Rep dot 0 (Some 50)) (Seq (Alt (ilit U (T ''page'')) (ilit U (T ''p.'')))
         (Seq (Rep isspace 0 None) (Rep (isdecimal U) 1 None))), True),
      (Seq (Rep dot 0 (Some 30))
         (Alt (ilit U (T ''confidential'')) (Alt (ilit U (T ''draft'')) (ilit U (T ''internal'')))),
       False),
      (Seq (Rep dot 0 (Some 30)) (Seq (Rep (isdecimal U) 1 (Some 2)) (Seq (ilit U (T ''/''))
         (Seq (Rep (isdecimal U) 1 (Some 2)) (Seq (ilit U (T ''/'')) (Rep (isdecimal U) 2 (Some 4)))))),
       False),
      (Seq (Rep dot 0 (Some 30))
         (Seq (Alt (ilit U (T ''chapter'')) (Alt (ilit U (T ''ch.'')) (ilit U (T ''section''))))
            (Seq (Rep isspace 1 None) (Rep (isdecimal U) 1 None))),
       False)]"

definition footer_patterns :: "ucd \<Rightarrow> pattern list" where
  \<comment> \<open>\<open>.{0,50}?(?:page|p\.)\s*\d+$\<close>, \<open>.{0,30}?\d{1,2}/\d{1,2}/\d{2,4}\<close>,
      \<open>.{0,30}?(?:copyright|\<copyright>|all rights reserved)\<close>, all used with \<open>re.IGNORECASE\<close>;
      the copyright sign is U+00A9\<close>
  "footer_patterns U =
     [(Seq (Rep dot 0 (Some 50)) (Seq (Alt (ilit U (T ''page'')) (ilit U (T ''p.'')))
         (Seq (Rep isspace 0 None) (Rep (isdecimal U) 1 None))), True),
      (Seq (Rep dot 0 (Some 30)) (Seq (Rep (isdecimal U) 1 (Some 2)) (Seq (ilit U (T ''/''))
         (Seq (Rep (isdecimal U) 1 (Some 2)) (Seq (ilit U (T ''/'')) (Rep (isdecimal U) 2 (Some 4)))))),
       False),
      (Seq (Rep dot 0 (Some 30))
         (Alt (ilit U (T ''copyright'')) (Alt (ilit U [169]) (ilit U (T ''all rights reserved'')))),
       False)]"

definition invisible_chars :: "uchar list" where
  \<comment> \<open>U+200B, U+200C, U+200D, U+2060, U+FEFF, U+00A0, U+3000\<close>
  "invisible_chars = [8203, 8204, 8205, 8288, 65279, 160, 12288]"

definition is_control :: "uchar \<Rightarrow> bool" where
  \<comment> \<open>the class \<open>[\x00-\x08\x0B\x0C\x0E-\x1F\x7F]\<close>\<close>
  "is_control c \<longleftrightarrow> c \<le> 8 \<or> c = 11 \<or> c = 12 \<or> (14 \<le> c \<and> c \<le> 31) \<or> c = 127"

subsection \<open>The cleaning passes\<close>

text \<open>
  Every pass takes the text and the statistics object and returns the text; the counters
  it increments are returned with it.
\<close>

fun remove_headers_footers_lines ::
  "ucd \<Rightarrow> ustr list \<Rightarrow> CleaningStats \<Rightarrow> ustr list \<times> CleaningStats" where
  "remove_headers_footers_lines U [] st = ([], st)"
| "remove_headers_footers_lines U (line # ls) st =
     (let line_stripped = strip line in
        if list_ex (\<lambda>p. re_match p line_stripped) (header_patterns U) then
          remove_headers_footers_lines U ls (st\<lparr>headers_removed := headers_removed st + 1\<rparr>)
        else if list_ex (\<lambda>p. re_search p line_stripped) (footer_patterns U) then
          remove_headers_footers_lines U ls (st\<lparr>footers_removed := footers_removed st + 1\<rparr>)
        else
          (let (kept, st') = remove_headers_footers_lines U ls st in (line # kept, st')))"

definition remove_headers_footers :: "ucd \<Rightarrow> ustr \<Rightarrow> CleaningStats \<Rightarrow> ustr \<times> CleaningStats" where
  "remove_headers_footers U cont st =
     (let (cleaned_lines, st') = remove_headers_footers_lines U (split_nl cont) st
      in (join_nl cleaned_lines, st'))"

definition normalize_unicode :: "ucd \<Rightarrow> ustr \<Rightarrow> CleaningStats \<Rightarrow> ustr \<times> CleaningStats" where
  "normalize_unicode U cont st =
     (let normalized = nfc U cont
      in (normalized,
          if normalized \<noteq> cont then st\<lparr>unicode_fixed := unicode_fixed st + 1\<rparr> else st))"

definition remove_invisible_characters :: "ustr \<Rightarrow> CleaningStats \<Rightarrow> ustr \<times> CleaningStats" where
  "remove_invisible_characters cont st =
     (let original_length = length cont;
          c1 = fold (\<lambda>ch s. filter (\<lambda>x. x \<noteq> ch) s) invisible_chars cont;
          c2 = filter (\<lambda>x. \<not> is_control x) c1;
          removed_count = original_length - length c2
      in (c2,
          if removed_count > 0
          then st\<lparr>invisible_chars_removed := invisible_chars_removed st + removed_count\<rparr>
          else st))"

fun replace_crlf :: "ustr \<Rightarrow> ustr" where
  \<comment> \<open>\<open>content.replace('\r\n', '\n')\<close>\<close>
  "replace_crlf [] = []"
| "replace_crlf [c] = [c]"
| "replace_crlf (c # d # r) =
     (if c = 13 \<and> d = 10 then 10 # replace_crlf r else c # replace_crlf (d # r))"

definition replace_cr :: "ustr \<Rightarrow> ustr" where
  \<comment> \<open>\<open>content.replace('\r', '\n')\<close>\<close>
  "replace_cr s = map (\<lambda>c. if c = 13 then 10 else c) s"

fun fix_line_breaks_lines :: "ucd \<Rightarrow> ustr list \<Rightarrow> CleaningStats \<Rightarrow> ustr list \<times> CleaningStats" where
  \<comment> \<open>the loop over \<open>enumerate(lines)\<close>; \<open>i < len(lines) - 1\<close> says that a next line exists\<close>
  "fix_line_breaks_lines U [] st = ([], st)"
| "fix_line_breaks_lines U (l # ls) st =
     (let line = strip l in
        if (case ls of [] \<Rightarrow> False
            | nxt # _ \<Rightarrow> line \<noteq> [] \<and> islower U (last line) \<and> strip nxt \<noteq> []
                          \<and> islower U (hd (strip nxt)))
        then
          (let (fixed, st') =
                 fix_line_breaks_lines U ls (st\<lparr>line_breaks_fixed := line_breaks_fixed st + 1\<rparr>)
           in ((line @ [32]) # fixed, st'))
        else
          (let (fixed, st') = fix_line_breaks_lines U ls st in (line # fixed, st')))"

definition fix_line_breaks :: "ucd \<Rightarrow> ustr \<Rightarrow> CleaningStats \<Rightarrow> ustr \<times> CleaningStats" where
  "fix_line_breaks U cont st =
     (let c1 = replace_cr (replace_crlf cont);
          (fixed_lines, st') = fix_line_breaks_lines U (split_nl c1) st
      in (join_nl fixed_lines, st'))"

fun collapse_spaces :: "ustr \<Rightarrow> ustr" where
  \<comment> \<open>\<open>re.sub(r' {2,}', ' ', content)\<close>\<close>
  "collapse_spaces [] = []"
| "collapse_spaces [c] = [c]"
| "collapse_spaces (c # d # r) =
     (if c = 32 \<and> d = 32 then collapse_spaces (d # r) else c # collapse_spaces (d # r))"

fun collapse_tabs :: "ustr \<Rightarrow> ustr" where
  \<comment> \<open>\<open>re.sub(r'\t+', ' ', content)\<close>\<close>
  "collapse_tabs [] = []"
| "collapse_tabs [c] = (if c = 9 then [32] else [c])"
| "collapse_tabs (c # d # r) =
     (if c = 9 \<and> d = 9 then collapse_tabs (d # r)
      else if c = 9 then 32 # collapse_tabs (d # r)
      else c # collapse_tabs (d # r))"

fun collapse_newlines :: "ustr \<Rightarrow> ustr" where
  \<comment> \<open>\<open>re.sub(r'\n{3,}', '\n\n', content)\<close>\<close>
  "collapse_newlines (c # d # e # r) =
     (if c = 10 \<and> d = 10 \<and> e = 10 then collapse_newlines (d # e # r)
      else c # collapse_newlines (d # e # r))"
| "collapse_newlines s = s"

definition standardize_whitespace :: "ustr \<Rightarrow> CleaningStats \<Rightarrow> ustr \<times> CleaningStats" where
  "standardize_whitespace cont st =
     (let original_content = cont;
          c1 = collapse_spaces cont;
          c2 = collapse_tabs c1;
          c3 = join_nl (map strip (split_nl c2));
          c4 = collapse_newlines c3
      in (c4,
          if c4 \<noteq> original_content
          then st\<lparr>whitespace_normalized := whitespace_normalized st + 1\<rparr> else st))"

definition special_char_ratio :: "ucd \<Rightarrow> ustr \<Rightarrow> real" where
  \<comment> \<open>\<open>sum(1 for c in line if not c.isalnum() and not c.isspace()) / len(line)\<close>\<close>
  "special_char_ratio U line =
     real (length (filter (\<lambda>c. \<not> isalnum U c \<and> \<not> isspace c) line)) / real (length line)"

definition skip_line :: "ucd \<Rightarrow> ustr \<Rightarrow> ustr list \<Rightarrow> bool" where
  \<comment> \<open>the three \<open>continue\<close> tests of \<open>_remove_redundant_content\<close>, in their order: a very
      short line, a line of mostly special characters, a repetition of the last line kept\<close>
  "skip_line U line filtered_lines =
     (if length line < 3 then True
      else if special_char_ratio U line > 7 / 10 then True
      else if filtered_lines \<noteq> [] \<and> last filtered_lines = line then True
      else False)"

fun remove_redundant_lines :: "ucd \<Rightarrow> ustr list \<Rightarrow> ustr list \<Rightarrow> ustr list" where
  \<comment> \<open>the loop of \<open>_remove_redundant_content\<close>; the second list is \<open>filtered_lines\<close>\<close>
  "remove_redundant_lines U [] filtered_lines = filtered_lines"
| "remove_redundant_lines U (l # ls) filtered_lines =
     (if skip_line U (strip l) filtered_lines then remove_redundant_lines U ls filtered_lines
      else remove_redundant_lines U ls (filtered_lines @ [strip l]))"

definition remove_redundant_content :: "ucd \<Rightarrow> ustr \<Rightarrow> CleaningStats \<Rightarrow> ustr \<times> CleaningStats" where
  "remove_redundant_content U cont st = (join_nl (remove_redundant_lines U (split_nl cont) []), st)"

definition clean_element ::
  "ucd \<Rightarrow> CleaningLevel \<Rightarrow> DocumentElement \<Rightarrow> CleaningStats \<Rightarrow> DocumentElement option \<times> CleaningStats" where
  "clean_element U lvl element st =
     (let c0 = content element in
        if c0 = [] \<or> strip c0 = [] then (None, st)
        else
          let (c1, st1) = (if lvl = STANDARD \<or> lvl = AGGRESSIVE
                           then remove_headers_footers U c0 st else (c0, st));
              (c2, st2) = normalize_unicode U c1 st1;
              (c3, st3) = remove_invisible_characters c2 st2;
              (c4, st4) = fix_line_breaks U c3 st3;
              (c5, st5) = standardize_whitespace c4 st4;
              (c6, st6) = (if lvl = AGGRESSIVE then remove_redundant_content U c5 st5 else (c5, st5))
          in (Some \<lparr>content = c6, element_type = element_type element, level = level element,
                     position = position element, line_start = line_start element,
                     line_end = line_end element, parent_id = None, children_ids = []\<rparr>,
              st6))"

subsection \<open>Language vote and quality score\<close>

text \<open>
  \<open>language_counts\<close> is a dictionary, which keeps its keys in the order of their first
  insertion: an association list in that order. \<open>max(d, key=d.get)\<close> returns the first key
  in that order whose count is the largest.
\<close>

fun count_language :: "(ustr \<times> nat) list \<Rightarrow> ustr \<Rightarrow> (ustr \<times> nat) list" where
  \<comment> \<open>\<open>language_counts[lang] = language_counts.get(lang, 0) + 1\<close>\<close>
  "count_language [] lang = [(lang, 1)]"
| "count_language ((k, n) # r) lang =
     (if k = lang then (k, n + 1) # r else (k, n) # count_language r lang)"

fun max_by_count :: "ustr \<times> nat \<Rightarrow> (ustr \<times> nat) list \<Rightarrow> ustr" where
  "max_by_count (k, n) [] = k"
| "max_by_count (k, n) ((k', n') # r) =
     (if n' > n then max_by_count (k', n') r else max_by_count (k, n) r)"

definition determine_language :: "ustr list \<Rightarrow> ustr" where
  "determine_language detected_languages =
     (if detected_languages = [] then T ''unknown''
      else case fold (\<lambda>lang counts. count_language counts lang) detected_languages [] of
             [] \<Rightarrow> T ''unknown''
           | kn # r \<Rightarrow> max_by_count kn r)"

definition calculate_quality_score :: "DocumentElement list \<Rightarrow> CleaningStats \<Rightarrow> real" where
  "calculate_quality_score els st =
     (let score = 1;
          reduction = get_reduction_percentage st;
          score = (if reduction > 50 then score - 3 / 10
                   else if reduction > 30 then score - 2 / 10
                   else if reduction > 15 then score - 1 / 10
                   else score);
          score = (if length els > 0 then
                     (let avg_content_length =
                            real (sum_list (map (\<lambda>e. length (content e)) els)) / real (length els)
                      in if avg_content_length > 100 then score + 1 / 10
                         else if avg_content_length < 20 then score - 1 / 10
                         else score)
                   else score);
          score = (if real (headers_removed st + footers_removed st) > real (length els) * (1 / 2)
                   then score - 2 / 10 else score)
      in max 0 (min 1 score))"

text \<open>
  The language detector is external: \<open>detect s\<close> is \<open>Some\<close> of the code it returns, or
  \<open>None\<close> when it raises \<open>LangDetectException\<close>. The loop of \<open>normalize_document\<close>
  returns the cleaned elements, the codes collected, the texts the detector was called on
  (in the order of the calls) and the statistics.
\<close>

fun normalize_loop ::
  "ucd \<Rightarrow> (ustr \<Rightarrow> ustr option) \<Rightarrow> CleaningLevel \<Rightarrow> DocumentElement list \<Rightarrow> CleaningStats
     \<Rightarrow> DocumentElement list \<times> ustr list \<times> ustr list \<times> CleaningStats" where
  "normalize_loop U detect lvl [] st = ([], [], [], st)"
| "normalize_loop U detect lvl (element # es) st =
     (let (cleaned, st1) = clean_element U lvl element st;
          (cleaned_rest, langs_rest, calls_rest, st2) = normalize_loop U detect lvl es st1
      in case cleaned of
           None \<Rightarrow> (cleaned_rest, langs_rest, calls_rest, st2)
         | Some ce \<Rightarrow>
             if strip (content ce) = [] then (cleaned_rest, langs_rest, calls_rest, st2)
             else if length (strip (content ce)) > 50 then
               (case detect (content ce) of
                  Some lang \<Rightarrow> (ce # cleaned_rest, lang # langs_rest, content ce # calls_rest, st2)
                | None \<Rightarrow> (ce # cleaned_rest, langs_rest, content ce # calls_rest, st2))
             else (ce # cleaned_rest, langs_rest, calls_rest, st2))"

definition normalize_run ::
  "ucd \<Rightarrow> (ustr \<Rightarrow> ustr option) \<Rightarrow> CleaningLevel \<Rightarrow> DocumentStructure
     \<Rightarrow> NormalizedDocument \<times> ustr list" where
  "normalize_run U detect lvl structure =
     (let stats = new_stats\<lparr>original_chars := sum_list (map (\<lambda>e. length (content e)) (elements structure))\<rparr>;
          (cleaned, detected_languages, calls, stats) =
             normalize_loop U detect lvl (elements structure) stats;
          final_language = determine_language detected_languages;
          stats = stats\<lparr>language_detected := final_language\<rparr>;
          score = calculate_quality_score cleaned stats;
          stats = stats\<lparr>cleaned_chars := sum_list (map (\<lambda>e. length (content e)) cleaned)\<rparr>
      in (\<lparr>original_structure = structure, cleaned_elements = cleaned, cleaning_stats = stats,
           detected_language = final_language, quality_score = score\<rparr>,
          calls))"

definition normalize_document ::
  "ucd \<Rightarrow> (ustr \<Rightarrow> ustr option) \<Rightarrow> CleaningLevel \<Rightarrow> DocumentStructure \<Rightarrow> NormalizedDocument" where
  "normalize_document U detect lvl structure = fst (normalize_run U detect lvl structure)"

definition detector_calls ::
  "ucd \<Rightarrow> (ustr \<Rightarrow> ustr option) \<Rightarrow> CleaningLevel \<Rightarrow> DocumentStructure \<Rightarrow> ustr list" where
  "detector_calls U detect lvl structure = snd (normalize_run U detect lvl structure)"

definition rewrap :: "NormalizedDocument \<Rightarrow> DocumentStructure" where
  \<comment> \<open>the cleaned elements of a normalized document as a new structure\<close>
  "rewrap d = \<lparr>elements = cleaned_elements d, hierarchy = Map.empty, table_of_contents = []\<rparr>"

section \<open>Sample inputs\<close>

definition scenario_a :: ustr where
  "scenario_a = T ''# Title\<newline>\<newline>Some paragraph text here.''"

definition paragraph_of :: "ustr \<Rightarrow> DocumentElement" where
  \<comment> \<open>a paragraph element with the given content\<close>
  "paragraph_of c =
     \<lparr>content = c, element_type = PARAGRAPH, level = 0, position = 0, line_start = 0,
      line_end = 0, parent_id = None, children_ids = []\<rparr>"

definition structure_of :: "DocumentElement list \<Rightarrow> DocumentStructure" where
  \<comment> \<open>a structure with the given elements\<close>
  "structure_of es = \<lparr>elements = es, hierarchy = Map.empty, table_of_contents = []\<rparr>"

definition scenario_d :: ustr where
  "scenario_d = T ''ok\<newline>!!!!!!!!!!\<newline>ok\<newline>ok''"

definition fenced_sample :: ustr where
  "fenced_sample = T ''```\<newline>print(1)\<newline>```''"

definition indented_sample :: ustr where
  "indented_sample = T ''    x = 1''"

definition wrapped_sample :: ustr where
  "wrapped_sample = T ''hello\<newline>world''"

definition clean_sample :: ustr where
  "clean_sample = T ''This is a perfectly clean line of text.''"

definition nested_sample :: ustr where
  "nested_sample = T ''# A\<newline># Bb\<newline>plain words''"

definition nested_structure :: DocumentStructure where
  "nested_structure =
     \<lparr>elements =
        [\<lparr>content = T ''# A'', element_type = HEADING, level = 1, position = 0,
          line_start = 0, line_end = 0, parent_id = None, children_ids = []\<rparr>,
         \<lparr>content = T ''# Bb'', element_type = HEADING, level = 2, position = 1,
          line_start = 1, line_end = 1, parent_id = Some 0, children_ids = []\<rparr>,
         \<lparr>content = T ''plain words'', element_type = PARAGRAPH, level = 0, position = 2,
          line_start = 2, line_end = 2, parent_id = None, children_ids = []\<rparr>],
      hierarchy = [0 \<mapsto> [1]],
      table_of_contents =
        [\<lparr>title = T ''# A'', toc_level = 1, toc_position = 0, element_id = 0\<rparr>,
         \<lparr>title = T ''# Bb'', toc_level = 2, toc_position = 1, element_id = 1\<rparr>]\<rparr>"

definition padded_sample :: ustr where
  "padded_sample = 10 # 10 # replicate 49 120"

definition vote_detect :: "ustr \<Rightarrow> ustr option" where
  "vote_detect s =
     (if s = [] then None
      else if hd s = 100 then Some (T ''de'')
      else if hd s = 102 then Some (T ''fr'')
      else if hd s = 101 then Some (T ''en'')
      else None)"

definition vote_structure :: DocumentStructure where
  "vote_structure = structure_of (map paragraph_of
     [replicate 51 100, replicate 51 102, replicate 51 101, replicate 51 101, replicate 51 102,
      replicate 51 120, replicate 50 100])"

definition devanagari_sample :: ustr where
  "devanagari_sample = [2392]"

definition letters_sample :: ustr where
  "letters_sample = replicate 30 97"

definition control_sample :: ustr where
  "control_sample = [112, 97, 1, 103, 101, 32, 49]"

definition hash_indented :: ustr where
  "hash_indented = T ''  # foo''"

definition copyright_sample :: ustr where
  "copyright_sample = [99, 111, 112, 121, 1, 114, 105, 103, 104, 116]"

definition page_sample :: ustr where
  "page_sample = T ''page 1\<newline>hello.''"

section \<open>Notions used in the proofs\<close>

text \<open>
  These are not functions of the source. \<open>well_levelled\<close> and \<open>parsed_ok\<close> state what
  the loop of \<open>_parse_elements\<close> maintains; \<open>step_stack\<close>, \<open>step_element\<close> and
  \<open>step_hierarchy\<close> name the three effects of one round of the loop of
  \<open>_build_hierarchy\<close>; \<open>tally\<close> is the dictionary \<open>language_counts\<close> after the loop of
  \<open>_determine_language\<close> and \<open>count_of\<close> reads a count from it; a \<open>solid\<close> text is a
  non-empty run of printable ASCII characters without spaces; \<open>stage1\<close> to \<open>stage6\<close>
  are the results of the successive passes of \<open>_clean_element\<close> on a content that is
  not blank; a \<open>visible\<close> character is one that \<open>_remove_invisible_characters\<close> keeps;
  \<open>lang\<close> is the set of texts that an expression denotes, with \<open>conc\<close> the
  concatenation of two such sets; \<open>after_headers\<close> is the text of an element after the
  header and footer pass, which is what \<open>_normalize_unicode\<close> receives, and
  \<open>cleaned_text\<close> is the text that \<open>_clean_element\<close> returns for it; a
  \<open>marked_line\<close> is a line that \<open>_remove_headers_footers\<close> removes.
\<close>

definition well_levelled :: "DocumentElement \<Rightarrow> bool" where
  "well_levelled e = (if is_heading e then 1 \<le> level e else level e = 0 \<or> level e = 1)"

definition parsed_ok :: "DocumentElement list \<Rightarrow> bool" where
  "parsed_ok es \<longleftrightarrow> map position es = [0..<length es] \<and> (\<forall>e\<in>set es. well_levelled e \<and> parent_id e = None)"

definition step_stack :: "DocumentElement \<Rightarrow> (nat \<times> int) list \<Rightarrow> (nat \<times> int) list" where
  "step_stack e st =
     (if is_heading e then (position e, level e) # pop_stack st (level e)
      else pop_stack st (level e))"

definition step_element :: "DocumentElement \<Rightarrow> (nat \<times> int) list \<Rightarrow> DocumentElement" where
  "step_element e st =
     (case pop_stack st (level e) of [] \<Rightarrow> e | (pid, plv) # r \<Rightarrow> e\<lparr>parent_id := Some pid\<rparr>)"

definition step_hierarchy ::
  "DocumentElement \<Rightarrow> (nat \<times> int) list \<Rightarrow> (nat \<rightharpoonup> nat list) \<Rightarrow> (nat \<rightharpoonup> nat list)" where
  "step_hierarchy e st h =
     (case pop_stack st (level e) of
        [] \<Rightarrow> h
      | (pid, plv) # r \<Rightarrow> h(pid \<mapsto> (case h pid of None \<Rightarrow> [] | Some cs \<Rightarrow> cs) @ [position e]))"

definition count_of :: "(ustr \<times> nat) list \<Rightarrow> ustr \<Rightarrow> nat" where
  "count_of al k = (case map_of al k of None \<Rightarrow> 0 | Some n \<Rightarrow> n)"

definition tally :: "ustr list \<Rightarrow> (ustr \<times> nat) list \<Rightarrow> (ustr \<times> nat) list" where
  "tally ls al = fold (\<lambda>lang counts. count_language counts lang) ls al"

definition solid :: "ustr \<Rightarrow> bool" where
  "solid p \<longleftrightarrow> p \<noteq> [] \<and> (\<forall>c\<in>set p. 33 \<le> c \<and> c \<le> 126)"

definition stage1 :: "ucd \<Rightarrow> CleaningLevel \<Rightarrow> ustr \<Rightarrow> CleaningStats \<Rightarrow> ustr \<times> CleaningStats" where
  "stage1 U lvl c st =
     (if lvl = STANDARD \<or> lvl = AGGRESSIVE then remove_headers_footers U c st else (c, st))"

definition stage2 :: "ucd \<Rightarrow> CleaningLevel \<Rightarrow> ustr \<Rightarrow> CleaningStats \<Rightarrow> ustr \<times> CleaningStats" where
  "stage2 U lvl c st = normalize_unicode U (fst (stage1 U lvl c st)) (snd (stage1 U lvl c st))"

definition stage3 :: "ucd \<Rightarrow> CleaningLevel \<Rightarrow> ustr \<Rightarrow> CleaningStats \<Rightarrow> ustr \<times> CleaningStats" where
  "stage3 U lvl c st =
     remove_invisible_characters (fst (stage2 U lvl c st)) (snd (stage2 U lvl c st))"

definition stage4 :: "ucd \<Rightarrow> CleaningLevel \<Rightarrow> ustr \<Rightarrow> CleaningStats \<Rightarrow> ustr \<times> CleaningStats" where
  "stage4 U lvl c st = fix_line_breaks U (fst (stage3 U lvl c st)) (snd (stage3 U lvl c st))"

definition stage5 :: "ucd \<Rightarrow> CleaningLevel \<Rightarrow> ustr \<Rightarrow> CleaningStats \<Rightarrow> ustr \<times> CleaningStats" where
  "stage5 U lvl c st = standardize_whitespace (fst (stage4 U lvl c st)) (snd (stage4 U lvl c st))"

definition stage6 :: "ucd \<Rightarrow> CleaningLevel \<Rightarrow> ustr \<Rightarrow> CleaningStats \<Rightarrow> ustr \<times> CleaningStats" where
  "stage6 U lvl c st =
     (if lvl = AGGRESSIVE
      then remove_redundant_content U (fst (stage5 U lvl c st)) (snd (stage5 U lvl c st))
      else stage5 U lvl c st)"

definition visible :: "uchar \<Rightarrow> bool" where
  "visible c \<longleftrightarrow> c \<notin> set invisible_chars \<and> \<not> is_control c"

definition after_headers :: "ucd \<Rightarrow> CleaningLevel \<Rightarrow> ustr \<Rightarrow> ustr" where
  "after_headers U lvl c = fst (stage1 U lvl c new_stats)"

definition cleaned_text :: "ucd \<Rightarrow> CleaningLevel \<Rightarrow> ustr \<Rightarrow> ustr" where
  "cleaned_text U lvl c = fst (stage6 U lvl c new_stats)"

definition marked_line :: "ucd \<Rightarrow> ustr \<Rightarrow> bool" where
  "marked_line U l \<longleftrightarrow> list_ex (\<lambda>p. re_match p (strip l)) (header_patterns U)
     \<or> list_ex (\<lambda>p. re_search p (strip l)) (footer_patterns U)"

definition conc :: "ustr set \<Rightarrow> ustr set \<Rightarrow> ustr set" where
  "conc A B = {a @ b | a b. a \<in> A \<and> b \<in> B}"

fun lang :: "rx \<Rightarrow> ustr set" where
  "lang Zero = {}"
| "lang One = {[]}"
| "lang (Atom p) = {[c] | c. p c}"
| "lang (Rep p lo hi) =
     {s. (\<forall>c\<in>set s. p c) \<and> lo \<le> length s \<and> (case hi of None \<Rightarrow> True | Some h \<Rightarrow> length s \<le> h)}"
| "lang (Alt r s) = lang r \<union> lang s"
| "lang (Seq r s) = conc (lang r) (lang s)"

section \<open>Evaluation\<close>

lemmas pattern_defs =
  heading_md1_def heading_md2_def heading_g1_def heading_g2_def heading_g3_def
  heading_patterns_markdown_def heading_patterns_general_def heading_patterns_get_def
  list_patterns_def table_patterns_def pipe_row_def code_patterns_def hash_marker_def
  table_shape_def anything_def re_match_def re_search_def re_search_multiline_def

lemmas char_defs = isspace_def upperAZ_def lowerAZ_def dot_def isword_def T_def strip_def

lemmas norm_defs = header_patterns_def footer_patterns_def

lemma paragraph_of_simps [simp]:
  "content (paragraph_of c) = c"
  "element_type (paragraph_of c) = PARAGRAPH"
  "level (paragraph_of c) = 0"
  "position (paragraph_of c) = 0"
  by (simp_all add: paragraph_of_def)

lemma structure_of_simps [simp]:
  "elements (structure_of es) = es"
  by (simp add: structure_of_def)

section \<open>Scenario A\<close>

lemma scenario_a_elements:
  "parse_elements U (split_nl scenario_a) Markdown = Some (Inr
     [new_element [T ''# Title''] HEADING 5 0 0 1,
      new_element [T ''Some paragraph text here.''] HEADING 1 1 2 1])"
  unfolding parse_elements_def scenario_a_def
  by (simp add: parse_elements_loop.simps identify_element_def pattern_defs char_defs
      level_func_md_def numeral_2_eq_2)

lemma scenario_a_value:
  "parse_document U scenario_a ''unknown'' = Some (Inr
     \<lparr>elements =
        [\<lparr>content = T ''# Title'', element_type = HEADING, level = 5, position = 0,
          line_start = 0, line_end = 0, parent_id = None, children_ids = []\<rparr>,
         \<lparr>content = T ''Some paragraph text here.'', element_type = HEADING, level = 1,
          position = 1, line_start = 2, line_end = 2, parent_id = None, children_ids = []\<rparr>],
      hierarchy = Map.empty,
      table_of_contents =
        [\<lparr>title = T ''# Title'', toc_level = 5, toc_position = 0, element_id = 0\<rparr>,
         \<lparr>title = T ''Some paragraph text here.'', toc_level = 1, toc_position = 1,
          element_id = 1\<rparr>]\<rparr>)"
proof -
  have d: "detect_format scenario_a ''unknown'' = Markdown"
    by (simp add: scenario_a_def detect_format_def pattern_defs char_defs)
  have s: "scenario_a \<noteq> [] \<and> strip scenario_a \<noteq> []"
    by (simp add: scenario_a_def char_defs)
  show ?thesis
    unfolding parse_document_def
    by (simp add: s d scenario_a_elements build_hierarchy_def new_element_def is_heading_def
        generate_table_of_contents_def)
qed

text \<open>
  C1, as stated, fails: on the text of scenario A the first element has level 5 (the
  length of the word \<open>Title\<close>), the second element is a Heading and not a Paragraph, and
  the table of contents has two entries.
\<close>

theorem scenario_a_counterexample:
  "\<not> (case parse_document ucd_sample scenario_a ''unknown'' of
        Some (Inr S) \<Rightarrow>
          map (\<lambda>e. (element_type e, content e, position e)) (elements S) =
            [(HEADING, T ''# Title'', 0), (PARAGRAPH, T ''Some paragraph text here.'', 1)]
          \<and> level (elements S ! 0) = 1
          \<and> map (\<lambda>t. (title t, toc_level t, toc_position t)) (table_of_contents S) =
              [(T ''# Title'', 1, 0)]
      | _ \<Rightarrow> False)"
  by (simp add: scenario_a_value)

text \<open>
  C1, amended: on the text of scenario A, whatever the Unicode tables, parse yields
  exactly two elements, a Heading with content \<open># Title\<close> at position 0 and a Heading with
  level 1 and content \<open>Some paragraph text here.\<close> at position 1 (the line is a
  capitalized sentence ending in a period); the table of contents has exactly two
  entries, for \<open># Title\<close> at position 0 and for \<open>Some paragraph text here.\<close> with level 1
  at position 1.
\<close>

theorem scenario_a_parse:
  "(case parse_document U scenario_a ''unknown'' of
      Some (Inr S) \<Rightarrow>
        map (\<lambda>e. (element_type e, content e, position e)) (elements S) =
          [(HEADING, T ''# Title'', 0), (HEADING, T ''Some paragraph text here.'', 1)]
        \<and> level (elements S ! 1) = 1
        \<and> map (\<lambda>t. (title t, toc_position t)) (table_of_contents S) =
            [(T ''# Title'', 0), (T ''Some paragraph text here.'', 1)]
        \<and> toc_level (table_of_contents S ! 1) = 1
    | _ \<Rightarrow> False)"
  by (simp add: scenario_a_value)

section \<open>Scenario D\<close>

lemma scenario_d_headers_footers:
  "remove_headers_footers ucd_sample scenario_d st = (scenario_d, st)"
  by (simp add: Let_def scenario_d_def remove_headers_footers_def norm_defs pattern_defs
      char_defs ucd_sample_def)

lemma scenario_d_unicode: "normalize_unicode ucd_sample scenario_d st = (scenario_d, st)"
  by (simp add: scenario_d_def normalize_unicode_def char_defs ucd_sample_def)

lemma scenario_d_invisible: "remove_invisible_characters scenario_d st = (scenario_d, st)"
  by (simp add: scenario_d_def remove_invisible_characters_def invisible_chars_def
      is_control_def char_defs)

lemma scenario_d_line_breaks:
  "fix_line_breaks ucd_sample scenario_d st =
     (T ''ok\<newline>!!!!!!!!!!\<newline>ok \<newline>ok'',
      st\<lparr>line_breaks_fixed := line_breaks_fixed st + 1\<rparr>)"
  by (simp add: scenario_d_def fix_line_breaks_def replace_cr_def char_defs ucd_sample_def)

lemma scenario_d_whitespace:
  "standardize_whitespace (T ''ok\<newline>!!!!!!!!!!\<newline>ok \<newline>ok'') st =
     (scenario_d, st\<lparr>whitespace_normalized := whitespace_normalized st + 1\<rparr>)"
  by (simp add: scenario_d_def standardize_whitespace_def char_defs)

lemma scenario_d_lines:
  "split_nl scenario_d = [T ''ok'', T ''!!!!!!!!!!'', T ''ok'', T ''ok'']"
  by (simp add: scenario_d_def T_def)

lemma short_line_skipped: "skip_line U (strip (T ''ok'')) kept"
  by (simp add: skip_line_def char_defs)

lemma bang_line_ratio: "special_char_ratio ucd_sample (T ''!!!!!!!!!!'') = 1"
  by (simp add: special_char_ratio_def char_defs ucd_sample_def)

lemma bang_line_skipped: "skip_line ucd_sample (strip (T ''!!!!!!!!!!'')) kept"
proof -
  have "strip (T ''!!!!!!!!!!'') = T ''!!!!!!!!!!''"
    by (simp add: char_defs)
  then show ?thesis
    by (simp add: skip_line_def bang_line_ratio)
qed

lemma scenario_d_redundant: "remove_redundant_content ucd_sample scenario_d st = ([], st)"
  by (simp add: remove_redundant_content_def scenario_d_lines short_line_skipped
      bang_line_skipped)

lemma scenario_d_clean:
  "clean_element ucd_sample AGGRESSIVE (paragraph_of scenario_d) st =
     (Some (paragraph_of []),
      st\<lparr>line_breaks_fixed := line_breaks_fixed st + 1,
         whitespace_normalized := whitespace_normalized st + 1\<rparr>)"
proof -
  have "scenario_d \<noteq> [] \<and> strip scenario_d \<noteq> []"
    by (simp add: scenario_d_def char_defs)
  then show ?thesis
    by (simp add: clean_element_def paragraph_of_def scenario_d_headers_footers
        scenario_d_unicode scenario_d_invisible scenario_d_line_breaks scenario_d_whitespace
        scenario_d_redundant)
qed

text \<open>
  C5, as stated, fails: Aggressive cleaning of the four lines of scenario D does not
  leave two lines \<open>ok\<close>.
\<close>

theorem scenario_d_counterexample:
  "map_option content (fst (clean_element ucd_sample AGGRESSIVE (paragraph_of scenario_d) new_stats))
     \<noteq> Some (T ''ok\<newline>ok'')"
  by (simp add: scenario_d_clean T_def)

text \<open>
  C5, amended: Aggressive-level cleaning of element content consisting of the four lines
  \<open>ok\<close>, \<open>!!!!!!!!!!\<close>, \<open>ok\<close>, \<open>ok\<close> drops the line \<open>!!!!!!!!!!\<close> for exceeding the 0.7
  special-character ratio (its ratio is 1) and drops each of the three lines \<open>ok\<close> for
  being shorter than 3 characters, so the cleaned content is empty and normalize keeps no
  element.
\<close>

theorem scenario_d_cleaning:
  "map_option content (fst (clean_element ucd_sample AGGRESSIVE (paragraph_of scenario_d) new_stats))
     = Some []
   \<and> cleaned_elements (normalize_document ucd_sample detect AGGRESSIVE
        (structure_of [paragraph_of scenario_d])) = []
   \<and> split_nl scenario_d = [T ''ok'', T ''!!!!!!!!!!'', T ''ok'', T ''ok'']
   \<and> length (strip (T ''ok'')) < 3
   \<and> special_char_ratio ucd_sample (strip (T ''!!!!!!!!!!'')) > 7 / 10
   \<and> remove_redundant_lines ucd_sample (split_nl scenario_d) [] = []"
proof -
  have b: "strip (T ''!!!!!!!!!!'') = T ''!!!!!!!!!!''"
    by (simp add: char_defs)
  have k: "length (strip (T ''ok'')) < 3"
    by (simp add: char_defs)
  have n: "cleaned_elements (normalize_document ucd_sample detect AGGRESSIVE
        (structure_of [paragraph_of scenario_d])) = []"
    by (simp add: normalize_document_def normalize_run_def scenario_d_clean strip_def Let_def)
  have r: "special_char_ratio ucd_sample (strip (T ''!!!!!!!!!!'')) > 7 / 10"
    by (simp add: b bang_line_ratio)
  have l: "remove_redundant_lines ucd_sample (split_nl scenario_d) [] = []"
    by (simp add: scenario_d_lines short_line_skipped bang_line_skipped)
  show ?thesis
    using n k r l by (simp add: scenario_d_clean scenario_d_lines)
qed

section \<open>The fields of a normalized document\<close>

lemma normalize_run_fields:
  assumes "normalize_loop U detect lvl (elements S)
             (new_stats\<lparr>original_chars := sum_list (map (\<lambda>e. length (content e)) (elements S))\<rparr>)
           = (cleaned, langs, calls, st)"
  shows "cleaned_elements (normalize_document U detect lvl S) = cleaned"
    and "detected_language (normalize_document U detect lvl S) = determine_language langs"
    and "detector_calls U detect lvl S = calls"
    and "cleaning_stats (normalize_document U detect lvl S) =
           st\<lparr>language_detected := determine_language langs,
              cleaned_chars := sum_list (map (\<lambda>e. length (content e)) cleaned)\<rparr>"
    and "quality_score (normalize_document U detect lvl S) =
           calculate_quality_score cleaned (st\<lparr>language_detected := determine_language langs\<rparr>)"
  using assms
  by (simp_all add: normalize_document_def detector_calls_def normalize_run_def Let_def)

section \<open>Line-break repair on a wrapped sentence\<close>

lemma wrapped_sample_fix:
  "fix_line_breaks ucd_sample wrapped_sample st =
     (T ''hello \<newline>world'', st\<lparr>line_breaks_fixed := line_breaks_fixed st + 1\<rparr>)"
  by (simp add: wrapped_sample_def fix_line_breaks_def replace_cr_def char_defs ucd_sample_def)

lemma wrapped_sample_clean:
  "clean_element ucd_sample MINIMAL (paragraph_of wrapped_sample) st =
     (Some (paragraph_of wrapped_sample),
      st\<lparr>line_breaks_fixed := line_breaks_fixed st + 1,
         whitespace_normalized := whitespace_normalized st + 1\<rparr>)"
proof -
  have s: "wrapped_sample \<noteq> [] \<and> strip wrapped_sample \<noteq> []"
    by (simp add: wrapped_sample_def char_defs)
  have nu: "normalize_unicode ucd_sample wrapped_sample st = (wrapped_sample, st)"
    by (simp add: wrapped_sample_def normalize_unicode_def char_defs ucd_sample_def)
  have ri: "remove_invisible_characters wrapped_sample st = (wrapped_sample, st)"
    by (simp add: wrapped_sample_def remove_invisible_characters_def invisible_chars_def
        is_control_def char_defs)
  have sw: "\<And>st. standardize_whitespace (T ''hello \<newline>world'') st =
      (wrapped_sample, st\<lparr>whitespace_normalized := whitespace_normalized st + 1\<rparr>)"
    by (simp add: wrapped_sample_def standardize_whitespace_def char_defs)
  show ?thesis
    by (simp add: clean_element_def paragraph_of_def s nu ri wrapped_sample_fix sw)
qed

text \<open>
  C3 on the content \<open>hello\<close>, newline, \<open>world\<close>: the repair pass appends a space to
  \<open>hello\<close> and counts one repair, but joins the lines with a newline again, and the
  whitespace pass then strips the space; the cleaned content still has the newline
  between the two lines.
\<close>

theorem line_break_repair_keeps_newline:
  "fst (fix_line_breaks ucd_sample wrapped_sample new_stats) = T ''hello \<newline>world''
   \<and> line_breaks_fixed (snd (fix_line_breaks ucd_sample wrapped_sample new_stats)) = 1
   \<and> map_option content (fst (clean_element ucd_sample MINIMAL (paragraph_of wrapped_sample) new_stats))
       = Some (T ''hello\<newline>world'')
   \<and> line_breaks_fixed (snd (clean_element ucd_sample MINIMAL (paragraph_of wrapped_sample) new_stats))
       = 1"
  by (simp add: wrapped_sample_fix wrapped_sample_clean)
    (simp add: new_stats_def wrapped_sample_def)

section \<open>The quality score of a text that cleaning leaves as it is\<close>

lemma clean_sample_chars:
  "clean_sample =
     [84, 104, 105, 115, 32, 105, 115, 32, 97, 32, 112, 101, 114, 102, 101, 99, 116, 108, 121,
      32, 99, 108, 101, 97, 110, 32, 108, 105, 110, 101, 32, 111, 102, 32, 116, 101, 120, 116, 46]"
  by (simp add: clean_sample_def T_def)

lemma clean_sample_length: "length clean_sample = 39"
  by (simp add: clean_sample_chars)

lemma clean_sample_nonempty: "clean_sample \<noteq> []"
  by (simp add: clean_sample_chars)

lemma clean_sample_strip: "strip clean_sample = clean_sample"
  by (simp add: clean_sample_chars strip_def isspace_def)

lemma clean_sample_split: "split_nl clean_sample = [clean_sample]"
  by (simp add: clean_sample_chars)

lemma clean_sample_unicode: "normalize_unicode ucd_sample clean_sample st = (clean_sample, st)"
  by (simp add: clean_sample_chars normalize_unicode_def ucd_sample_def)

lemma clean_sample_invisible: "remove_invisible_characters clean_sample st = (clean_sample, st)"
proof -
  have "fold (\<lambda>ch s. filter (\<lambda>x. x \<noteq> ch) s) invisible_chars clean_sample = clean_sample"
    by (simp add: clean_sample_chars invisible_chars_def)
  moreover have "filter (\<lambda>x. \<not> is_control x) clean_sample = clean_sample"
    by (simp add: clean_sample_chars is_control_def)
  ultimately show ?thesis
    by (simp add: remove_invisible_characters_def)
qed

lemma clean_sample_line_breaks: "fix_line_breaks ucd_sample clean_sample st = (clean_sample, st)"
proof -
  have "replace_cr (replace_crlf clean_sample) = clean_sample"
    by (simp add: clean_sample_chars replace_cr_def)
  then show ?thesis
    by (simp add: fix_line_breaks_def clean_sample_split clean_sample_strip)
qed

lemma clean_sample_whitespace: "standardize_whitespace clean_sample st = (clean_sample, st)"
proof -
  have "collapse_spaces clean_sample = clean_sample"
    by (simp add: clean_sample_chars)
  moreover have "collapse_tabs clean_sample = clean_sample"
    by (simp add: clean_sample_chars)
  moreover have "collapse_newlines clean_sample = clean_sample"
    by (simp add: clean_sample_chars)
  ultimately show ?thesis
    by (simp add: standardize_whitespace_def clean_sample_split clean_sample_strip)
qed

lemma clean_sample_clean:
  "clean_element ucd_sample MINIMAL (paragraph_of clean_sample) st =
     (Some (paragraph_of clean_sample), st)"
proof -
  show ?thesis
    by (simp add: clean_element_def paragraph_of_def clean_sample_strip clean_sample_nonempty
        clean_sample_unicode
        clean_sample_invisible clean_sample_line_breaks clean_sample_whitespace)
qed

lemma clean_sample_loop:
  "normalize_loop ucd_sample detect MINIMAL [paragraph_of clean_sample] st =
     ([paragraph_of clean_sample], [], [], st)"
  by (simp add: clean_sample_clean clean_sample_strip clean_sample_length clean_sample_nonempty)

text \<open>
  C2 on a document with the single element \<open>This is a perfectly clean line of text.\<close>
  (39 characters) at the Minimal level: cleaning changes nothing, so the reduction
  percentage of the final statistics is 0 and the claim gives no reduction penalty; the
  score is 0.7, because it is computed while \<open>cleaned_chars\<close> is still 0, where the
  reduction is 100.
\<close>

theorem quality_penalty_ignores_final_reduction:
  "get_reduction_percentage (cleaning_stats
      (normalize_document ucd_sample detect MINIMAL (structure_of [paragraph_of clean_sample]))) = 0
   \<and> quality_score
      (normalize_document ucd_sample detect MINIMAL (structure_of [paragraph_of clean_sample]))
     = 7 / 10"
proof -
  let ?S = "structure_of [paragraph_of clean_sample]"
  have loop: "normalize_loop ucd_sample detect MINIMAL (elements ?S)
      (new_stats\<lparr>original_chars := sum_list (map (\<lambda>e. length (content e)) (elements ?S))\<rparr>)
    = ([paragraph_of clean_sample], [], [], new_stats\<lparr>original_chars := 39\<rparr>)"
    by (simp add: clean_sample_loop clean_sample_length del: normalize_loop.simps)
  have "get_reduction_percentage (cleaning_stats (normalize_document ucd_sample detect MINIMAL ?S)) = 0"
    by (simp add: normalize_run_fields(4)[OF loop] get_reduction_percentage_def
        clean_sample_length new_stats_def)
  moreover have "quality_score (normalize_document ucd_sample detect MINIMAL ?S) = 7 / 10"
    by (simp add: normalize_run_fields(5)[OF loop] calculate_quality_score_def
        get_reduction_percentage_def clean_sample_length new_stats_def)
  ultimately show ?thesis by simp
qed

section \<open>Fenced and indented code\<close>

lemma fenced_sample_elements:
  "parse_elements ucd_sample (split_nl fenced_sample) PlainText = Some (Inr
     [new_element [T ''```'', T ''print(1)'', T ''```''] PARAGRAPH 0 0 0 3])"
  unfolding parse_elements_def fenced_sample_def
  by (simp add: parse_elements_loop.simps identify_element_def pattern_defs char_defs
      ucd_sample_def extract_paragraph_def is_structured_line_def Let_def new_element_def)

lemma fenced_sample_value:
  "parse_document ucd_sample fenced_sample ''unknown'' = Some (Inr
     \<lparr>elements =
        [\<lparr>content = fenced_sample, element_type = PARAGRAPH, level = 0, position = 0,
          line_start = 0, line_end = 2, parent_id = None, children_ids = []\<rparr>],
      hierarchy = Map.empty, table_of_contents = []\<rparr>)"
proof -
  have d: "detect_format fenced_sample ''unknown'' = PlainText"
    by (simp add: fenced_sample_def detect_format_def pattern_defs char_defs)
  have s: "fenced_sample \<noteq> [] \<and> strip fenced_sample \<noteq> []"
    by (simp add: fenced_sample_def char_defs)
  have j: "join_nl [T ''```'', T ''print(1)'', T ''```''] = fenced_sample"
    by (simp add: fenced_sample_def T_def)
  show ?thesis
    unfolding parse_document_def
    by (simp add: s d fenced_sample_elements build_hierarchy_def new_element_def is_heading_def
        generate_table_of_contents_def j del: join_nl.simps)
qed

lemma indented_sample_elements:
  "parse_elements ucd_sample (split_nl indented_sample) PlainText = Some (Inr
     [new_element [T ''x = 1''] PARAGRAPH 0 0 0 1])"
  unfolding parse_elements_def indented_sample_def
  by (simp add: parse_elements_loop.simps identify_element_def pattern_defs char_defs
      ucd_sample_def extract_paragraph_def is_structured_line_def Let_def new_element_def)

lemma indented_sample_value:
  "parse_document ucd_sample indented_sample ''unknown'' = Some (Inr
     \<lparr>elements =
        [\<lparr>content = T ''x = 1'', element_type = PARAGRAPH, level = 0, position = 0,
          line_start = 0, line_end = 0, parent_id = None, children_ids = []\<rparr>],
      hierarchy = Map.empty, table_of_contents = []\<rparr>)"
proof -
  have d: "detect_format indented_sample ''unknown'' = PlainText"
    by (simp add: indented_sample_def detect_format_def pattern_defs char_defs)
  have s: "indented_sample \<noteq> [] \<and> strip indented_sample \<noteq> []"
    by (simp add: indented_sample_def char_defs)
  show ?thesis
    unfolding parse_document_def
    by (simp add: s d indented_sample_elements build_hierarchy_def new_element_def is_heading_def
        generate_table_of_contents_def)
qed

text \<open>
  C4 on the text of the three lines \<open>```\<close>, \<open>print(1)\<close>, \<open>```\<close> and on the text of the
  one line \<open>x = 1\<close> indented by four spaces: parse yields one Paragraph in either case,
  and no CodeBlock. The line is stripped before the code patterns are tried, so it has
  neither the newlines the fence pattern asks for nor the leading spaces of the
  indentation pattern.
\<close>

theorem code_samples_parse_as_paragraphs:
  "(case parse_document ucd_sample fenced_sample ''unknown'' of
      Some (Inr S) \<Rightarrow>
        map (\<lambda>e. (element_type e, content e)) (elements S) = [(PARAGRAPH, fenced_sample)]
    | _ \<Rightarrow> False)
   \<and> (case parse_document ucd_sample indented_sample ''unknown'' of
      Some (Inr S) \<Rightarrow>
        map (\<lambda>e. (element_type e, content e)) (elements S) = [(PARAGRAPH, T ''x = 1'')]
    | _ \<Rightarrow> False)"
  by (simp add: fenced_sample_value indented_sample_value)

section \<open>The hierarchy of a parsed document\<close>

lemma level_func_md_pos: "level_func_md line = Inr v \<Longrightarrow> 1 \<le> v"
proof -
  assume a: "level_func_md line = Inr v"
  define g where "g = dropWhile isspace (dropWhile (\<lambda>c. c = 35) line)"
  from a have ne: "g \<noteq> []" and v: "v = int (length (takeWhile (\<lambda>c. \<not> isspace c) g))"
    by (auto simp: level_func_md_def g_def Let_def split: if_splits)
  from ne have "\<not> isspace (hd g)"
    unfolding g_def by (metis hd_dropWhile)
  with ne have "takeWhile (\<lambda>c. \<not> isspace c) g \<noteq> []"
    by (cases g) auto
  with v show ?thesis by (cases "takeWhile (\<lambda>c. \<not> isspace c) g") auto
qed

lemma first_heading_pos:
  "first_heading ps line = Some (Inr v) \<Longrightarrow> (\<And>p f w. (p, f) \<in> set ps \<Longrightarrow> f line = Inr w \<Longrightarrow> 1 \<le> w) \<Longrightarrow> 1 \<le> v"
  by (induction ps line rule: first_heading.induct) (auto split: if_splits)

lemma heading_markdown_pos: "first_heading (heading_patterns_get fmt) line = Some (Inr v) \<Longrightarrow> 1 \<le> v"
  by (erule first_heading_pos)
     (auto simp: heading_patterns_get_def heading_patterns_markdown_def dest: level_func_md_pos split: doc_format.splits)

lemma heading_general_pos: "first_heading (heading_patterns_general U) line = Some (Inr v) \<Longrightarrow> 1 \<le> v"
  by (erule first_heading_pos) (auto simp: heading_patterns_general_def)

lemma identify_element_levels:
  assumes "identify_element U lines i fmt = Inr (ty, lv, cl, consumed)"
  shows "(ty = HEADING \<and> 1 \<le> lv) \<or> (ty \<in> {LIST_ITEM, TABLE, CODE_BLOCK} \<and> lv = 1) \<or> (ty = UNKNOWN)"
  using assms
  by (auto simp: identify_element_def Let_def split: if_splits option.splits sum.splits
      dest: heading_markdown_pos heading_general_pos)

lemma parsed_ok_snoc:
  "parsed_ok es \<Longrightarrow> well_levelled (new_element cl ty lv (length es) i n) \<Longrightarrow> parsed_ok (es @ [new_element cl ty lv (length es) i n])"
  by (auto simp: parsed_ok_def new_element_def)

lemma parse_elements_loop_ok_aux:
  assumes "parse_elements_loop U lines fmt i pos es = Some r"
  shows "\<forall>res. r = Inr res \<longrightarrow> pos = length es \<longrightarrow> parsed_ok es \<longrightarrow> parsed_ok res"
proof (rule parse_elements_loop.raw_induct[where P = "\<lambda>U lines fmt i pos es r.
    \<forall>res. r = Inr res \<longrightarrow> pos = length es \<longrightarrow> parsed_ok es \<longrightarrow> parsed_ok res", OF _ assms])
  fix loop :: "ucd \<Rightarrow> ustr list \<Rightarrow> doc_format \<Rightarrow> nat \<Rightarrow> nat \<Rightarrow> DocumentElement list
      \<Rightarrow> (error + DocumentElement list) option"
    and U lines fmt i pos es r
  assume IH: "\<And>U lines fmt i pos es r. loop U lines fmt i pos es = Some r \<Longrightarrow>
      \<forall>res. r = Inr res \<longrightarrow> pos = length es \<longrightarrow> parsed_ok es \<longrightarrow> parsed_ok res"
  assume body: "(if i < length lines then
        (if strip (lines ! i) = [] then loop U lines fmt (i + 1) pos es
         else case identify_element U lines i fmt of
           Inl e \<Rightarrow> Some (Inl e)
         | Inr (ty, lv, content_lines, consumed) \<Rightarrow>
             if ty \<noteq> UNKNOWN then
               loop U lines fmt (i + consumed) (pos + 1)
                 (es @ [new_element content_lines ty lv pos i consumed])
             else
               (let paragraph_lines = extract_paragraph U lines i in
                loop U lines fmt (i + length paragraph_lines) (pos + 1)
                  (es @ [new_element paragraph_lines PARAGRAPH 0 pos i (length paragraph_lines)])))
      else Some (Inr es)) = Some r"
  show "\<forall>res. r = Inr res \<longrightarrow> pos = length es \<longrightarrow> parsed_ok es \<longrightarrow> parsed_ok res"
  proof (intro allI impI)
    fix res
    assume r: "r = Inr res" and pos: "pos = length es" and ok: "parsed_ok es"
    show "parsed_ok res"
    proof (cases "i < length lines")
      case False
      with body r ok show ?thesis by simp
    next
      case lt: True
      show ?thesis
      proof (cases "strip (lines ! i) = []")
        case True
        with body lt have "loop U lines fmt (i + 1) pos es = Some r" by simp
        from IH[OF this] r pos ok show ?thesis by blast
      next
        case ne: False
        show ?thesis
        proof (cases "identify_element U lines i fmt")
          case (Inl e)
          with body lt ne r show ?thesis by simp
        next
          case (Inr t)
          obtain ty lv cl consumed where t: "t = (ty, lv, cl, consumed)" by (cases t) auto
          from identify_element_levels[OF Inr[unfolded t]]
          have lev: "(ty = HEADING \<and> 1 \<le> lv) \<or> (ty \<in> {LIST_ITEM, TABLE, CODE_BLOCK} \<and> lv = 1)
                \<or> (ty = UNKNOWN)" .
          show ?thesis
          proof (cases "ty = UNKNOWN")
            case True
            let ?pl = "extract_paragraph U lines i"
            let ?e = "new_element ?pl PARAGRAPH 0 (length es) i (length ?pl)"
            have w: "well_levelled ?e"
              by (simp add: well_levelled_def new_element_def is_heading_def)
            from body lt ne Inr t True pos
            have "loop U lines fmt (i + length ?pl) (length es + 1) (es @ [?e]) = Some r"
              by (simp add: Let_def)
            from IH[OF this] r parsed_ok_snoc[OF ok w] show ?thesis by simp
          next
            case False
            let ?e = "new_element cl ty lv (length es) i consumed"
            from lev False have w: "well_levelled ?e"
              by (auto simp: well_levelled_def new_element_def is_heading_def)
            from body lt ne Inr t False pos
            have "loop U lines fmt (i + consumed) (length es + 1) (es @ [?e]) = Some r"
              by (simp add: Let_def)
            from IH[OF this] r parsed_ok_snoc[OF ok w] show ?thesis by simp
          qed
        qed
      qed
    qed
  qed
qed

lemma parse_elements_ok: "parse_elements U lines fmt = Some (Inr es) \<Longrightarrow> parsed_ok es"
  using parse_elements_loop_ok_aux[of U lines fmt 0 0 "[]" "Inr es"]
  by (simp add: parse_elements_def parsed_ok_def)

lemma pop_stack_subset: "set (pop_stack st lv) \<subseteq> set st"
  by (induction st lv rule: pop_stack.induct) auto

lemma pop_stack_top: "pop_stack st lv = (pid, plv) # r \<Longrightarrow> plv < lv"
  by (induction st lv rule: pop_stack.induct) (auto split: if_splits)

lemma pop_stack_empty: "\<forall>(p, l)\<in>set st. 1 \<le> l \<Longrightarrow> lv \<le> 1 \<Longrightarrow> pop_stack st lv = []"
  by (induction st lv rule: pop_stack.induct) auto

lemma build_hierarchy_loop_Cons:
  "build_hierarchy_loop (e # es) st h =
     (step_element e st # fst (build_hierarchy_loop es (step_stack e st) (step_hierarchy e st h)),
      snd (build_hierarchy_loop es (step_stack e st) (step_hierarchy e st h)))"
  by (simp add: Let_def step_element_def step_stack_def step_hierarchy_def
      split: list.splits prod.splits)

declare build_hierarchy_loop.simps(2) [simp del]

lemma step_element_fields [simp]:
  "position (step_element e st) = position e"
  "level (step_element e st) = level e"
  "element_type (step_element e st) = element_type e"
  by (simp_all add: step_element_def split: list.splits)

lemma build_hierarchy_loop_fields:
  "map position (fst (build_hierarchy_loop es st h)) = map position es
   \<and> map level (fst (build_hierarchy_loop es st h)) = map level es
   \<and> map element_type (fst (build_hierarchy_loop es st h)) = map element_type es"
  by (induction es arbitrary: st h) (simp_all add: build_hierarchy_loop_Cons)

lemma step_stack_levels:
  "\<forall>(p, l)\<in>set st. 1 \<le> l \<Longrightarrow> well_levelled e \<Longrightarrow> \<forall>(p, l)\<in>set (step_stack e st). 1 \<le> l"
  using pop_stack_subset[of st "level e"]
  by (auto simp: step_stack_def well_levelled_def)

lemma step_leaf:
  assumes "\<forall>(p, l)\<in>set st. 1 \<le> l" and "well_levelled e" and "\<not> is_heading e"
  shows "step_element e st = e" and "step_hierarchy e st h = h"
proof -
  from assms(2,3) have "level e \<le> 1" by (auto simp: well_levelled_def)
  from pop_stack_empty[OF assms(1) this]
  show "step_element e st = e" and "step_hierarchy e st h = h"
    by (simp_all add: step_element_def step_hierarchy_def)
qed

lemma build_hierarchy_loop_leaves:
  assumes "\<forall>(p, l)\<in>set st. 1 \<le> l" and "\<forall>e\<in>set es. well_levelled e \<and> parent_id e = None"
    and "e' \<in> set (fst (build_hierarchy_loop es st h))" and "\<not> is_heading e'"
  shows "parent_id e' = None"
  using assms
proof (induction es arbitrary: st h)
  case Nil
  then show ?case by simp
next
  case (Cons e es)
  from Cons.prems(2) have we: "well_levelled e" and pe: "parent_id e = None" by auto
  from Cons.prems(3)
  have "e' = step_element e st
      \<or> e' \<in> set (fst (build_hierarchy_loop es (step_stack e st) (step_hierarchy e st h)))"
    by (simp add: build_hierarchy_loop_Cons)
  then show ?case
  proof
    assume e': "e' = step_element e st"
    with Cons.prems(4) have "\<not> is_heading e" by (simp add: is_heading_def)
    from step_leaf(1)[OF Cons.prems(1) we this] e' pe show ?thesis by simp
  next
    assume "e' \<in> set (fst (build_hierarchy_loop es (step_stack e st) (step_hierarchy e st h)))"
    from Cons.IH[OF step_stack_levels[OF Cons.prems(1) we] _ this Cons.prems(4)] Cons.prems(2)
    show ?thesis by simp
  qed
qed

lemma build_hierarchy_loop_children:
  assumes "\<forall>(p, l)\<in>set st. 1 \<le> l" and "\<forall>e\<in>set es. well_levelled e"
    and "snd (build_hierarchy_loop es st h) pid = Some cs" and "c \<in> set cs"
  shows "(\<exists>cs0. h pid = Some cs0 \<and> c \<in> set cs0) \<or> (\<exists>e\<in>set es. is_heading e \<and> position e = c)"
  using assms
proof (induction es arbitrary: st h)
  case Nil
  then show ?case by simp
next
  case (Cons e es)
  from Cons.prems(2) have we: "well_levelled e" by simp
  from Cons.prems(3)
  have "snd (build_hierarchy_loop es (step_stack e st) (step_hierarchy e st h)) pid = Some cs"
    by (simp add: build_hierarchy_loop_Cons)
  from Cons.IH[OF step_stack_levels[OF Cons.prems(1) we] _ this Cons.prems(4)] Cons.prems(2)
  have "(\<exists>cs0. step_hierarchy e st h pid = Some cs0 \<and> c \<in> set cs0)
      \<or> (\<exists>e\<in>set es. is_heading e \<and> position e = c)"
    by simp
  then show ?case
  proof
    assume a: "\<exists>cs0. step_hierarchy e st h pid = Some cs0 \<and> c \<in> set cs0"
    show ?thesis
    proof (cases "is_heading e")
      case False
      from step_leaf(2)[OF Cons.prems(1) we False] a show ?thesis by simp
    next
      case True
      with a show ?thesis
        by (auto simp: step_hierarchy_def split: list.splits option.splits if_splits)
    qed
  next
    assume "\<exists>e\<in>set es. is_heading e \<and> position e = c"
    then show ?thesis by auto
  qed
qed

lemma build_hierarchy_loop_parent:
  assumes "\<forall>e\<in>set es. parent_id e = None"
    and "e' \<in> set (fst (build_hierarchy_loop es st h))" and "parent_id e' = Some pid"
  shows "\<exists>plv. plv < level e' \<and> ((pid, plv) \<in> set st \<or> (\<exists>p\<in>set es. position p = pid \<and> level p = plv))"
  using assms
proof (induction es arbitrary: st h)
  case Nil
  then show ?case by simp
next
  case (Cons e es)
  from Cons.prems(2)
  have "e' = step_element e st
      \<or> e' \<in> set (fst (build_hierarchy_loop es (step_stack e st) (step_hierarchy e st h)))"
    by (simp add: build_hierarchy_loop_Cons)
  then show ?case
  proof
    assume e': "e' = step_element e st"
    show ?thesis
    proof (cases "pop_stack st (level e)")
      case Nil
      with e' Cons.prems(1,3) show ?thesis by (simp add: step_element_def)
    next
      case (Cons a r)
      obtain q qlv where a: "a = (q, qlv)" by (cases a) auto
      from Cons a e' Cons.prems(3) have "q = pid" "level e' = level e"
        by (auto simp: step_element_def)
      moreover from pop_stack_top[OF Cons[unfolded a]] have "qlv < level e" .
      moreover from Cons a pop_stack_subset[of st "level e"] have "(q, qlv) \<in> set st" by auto
      ultimately show ?thesis by auto
    qed
  next
    assume "e' \<in> set (fst (build_hierarchy_loop es (step_stack e st) (step_hierarchy e st h)))"
    from Cons.IH[OF _ this Cons.prems(3)] Cons.prems(1)
    obtain plv where plv: "plv < level e'"
      "(pid, plv) \<in> set (step_stack e st) \<or> (\<exists>p\<in>set es. position p = pid \<and> level p = plv)"
      by auto
    from plv(2) pop_stack_subset[of st "level e"]
    have "(pid, plv) \<in> set st \<or> (\<exists>p\<in>set (e # es). position p = pid \<and> level p = plv)"
      by (auto simp: step_stack_def split: if_splits)
    with plv(1) show ?thesis by blast
  qed
qed

lemma parse_document_cases:
  assumes "parse_document U cont ft = Some (Inr S)"
  shows "(elements S = [] \<and> hierarchy S = Map.empty)
    \<or> (\<exists>es. parsed_ok es \<and> elements S = fst (build_hierarchy_loop es [] Map.empty)
          \<and> hierarchy S = snd (build_hierarchy_loop es [] Map.empty))"
proof (cases "cont = [] \<or> strip cont = []")
  case True
  with assms show ?thesis by (auto simp: parse_document_def)
next
  case False
  with assms obtain es where es: "parse_elements U (split_nl cont) (detect_format cont ft) = Some (Inr es)"
    and S: "S = \<lparr>elements = fst (build_hierarchy es), hierarchy = snd (build_hierarchy es),
          table_of_contents = generate_table_of_contents (fst (build_hierarchy es))\<rparr>"
    by (auto simp: parse_document_def Let_def split: option.splits sum.splits prod.splits)
  from parse_elements_ok[OF es] S show ?thesis
    by (auto simp: build_hierarchy_def)
qed

lemma same_position_same_index:
  assumes "distinct (map position xs)" and "i < length xs" and "j < length xs"
    and "position (xs ! i) = position (xs ! j)"
  shows "i = j"
  using assms by (metis distinct_conv_nth length_map nth_map)

lemma parsed_ok_distinct: "parsed_ok es \<Longrightarrow> distinct (map position es)"
  by (simp add: parsed_ok_def)

text \<open>
  C10: in every structure that parse returns, an element that is neither a Title nor a
  Heading has no parent, has level 0 or 1, and its id is in no children list of the
  hierarchy.
\<close>

theorem leaves_have_no_parent:
  assumes "parse_document U cont ft = Some (Inr S)" and "e \<in> set (elements S)"
    and "\<not> is_heading e"
  shows "parent_id e = None \<and> (level e = 0 \<or> level e = 1)
    \<and> (\<forall>pid cs. hierarchy S pid = Some cs \<longrightarrow> position e \<notin> set cs)"
proof -
  from parse_document_cases[OF assms(1)] assms(2)
  obtain es where ok: "parsed_ok es"
    and el: "elements S = fst (build_hierarchy_loop es [] Map.empty)"
    and hi: "hierarchy S = snd (build_hierarchy_loop es [] Map.empty)"
    by auto
  let ?es' = "fst (build_hierarchy_loop es [] Map.empty)"
  from ok have wl: "\<forall>x\<in>set es. well_levelled x \<and> parent_id x = None"
    by (simp add: parsed_ok_def)
  from assms(2) el have mem: "e \<in> set ?es'" by simp
  have p: "parent_id e = None"
    by (rule build_hierarchy_loop_leaves[OF _ wl mem assms(3)]) simp
  from mem obtain k where k: "k < length ?es'" "?es' ! k = e"
    by (auto simp: in_set_conv_nth)
  from build_hierarchy_loop_fields[of es "[]" Map.empty]
  have mp: "map position ?es' = map position es" and ml: "map level ?es' = map level es"
    and mt: "map element_type ?es' = map element_type es" by auto
  from mp have len: "length ?es' = length es" by (metis length_map)
  from k len have k': "k < length es" by simp
  from mp k k' have pk: "position (es ! k) = position e" by (metis nth_map len)
  from ml k k' have lk: "level (es ! k) = level e" by (metis nth_map len)
  from mt k k' have tk: "element_type (es ! k) = element_type e" by (metis nth_map len)
  from tk assms(3) have nh: "\<not> is_heading (es ! k)" by (simp add: is_heading_def)
  from k' have "es ! k \<in> set es" by simp
  with wl have "well_levelled (es ! k)" by blast
  with nh lk have l: "level e = 0 \<or> level e = 1"
    by (simp add: well_levelled_def)
  have c: "\<forall>pid cs. hierarchy S pid = Some cs \<longrightarrow> position e \<notin> set cs"
  proof (intro allI impI notI)
    fix pid cs
    assume h: "hierarchy S pid = Some cs" and in_cs: "position e \<in> set cs"
    from build_hierarchy_loop_children[OF _ _ h[unfolded hi] in_cs] wl
    obtain x where x: "x \<in> set es" "is_heading x" "position x = position e" by auto
    from x(1) obtain j where j: "j < length es" "es ! j = x" by (auto simp: in_set_conv_nth)
    from same_position_same_index[OF parsed_ok_distinct[OF ok] j(1) k'] j(2) x(3) pk
    have "j = k" by simp
    with j(2) x(2) nh show False by simp
  qed
  from p l c show ?thesis by simp
qed

text \<open>
  C6: in every structure that parse returns, the element that the parent id of an element
  refers to has a level strictly below the level of that element.
\<close>

theorem parent_level_below_child:
  assumes "parse_document U cont ft = Some (Inr S)" and "e \<in> set (elements S)"
    and "parent_id e = Some pid"
  shows "\<exists>p. get_element_by_id S pid = Some p \<and> level p < level e"
proof -
  from parse_document_cases[OF assms(1)] assms(2)
  obtain es where ok: "parsed_ok es"
    and el: "elements S = fst (build_hierarchy_loop es [] Map.empty)"
    by auto
  let ?es' = "fst (build_hierarchy_loop es [] Map.empty)"
  from ok have np: "\<forall>x\<in>set es. parent_id x = None"
    by (simp add: parsed_ok_def)
  from assms(2) el have mem: "e \<in> set ?es'" by simp
  from build_hierarchy_loop_parent[OF np mem assms(3)]
  obtain x where x: "x \<in> set es" "position x = pid" "level x < level e" by auto
  from build_hierarchy_loop_fields[of es "[]" Map.empty]
  have mp: "map position ?es' = map position es" and ml: "map level ?es' = map level es"
    by auto
  from mp have len: "length ?es' = length es" by (metis length_map)
  from x(1) obtain j where j: "j < length es" "es ! j = x" by (auto simp: in_set_conv_nth)
  from mp j len have pj: "position (?es' ! j) = pid" using x(2) by (metis nth_map)
  from ml j len have lj: "level (?es' ! j) = level x" by (metis nth_map)
  from j len pj have "\<exists>y\<in>set ?es'. position y = pid" by (metis nth_mem)
  then obtain p where f: "find (\<lambda>y. position y = pid) ?es' = Some p"
    by (cases "find (\<lambda>y. position y = pid) ?es'") (auto simp: find_None_iff)
  then obtain i where i: "i < length ?es'" "?es' ! i = p" "position p = pid"
    by (auto simp: find_Some_iff)
  have d: "distinct (map position ?es')" using mp parsed_ok_distinct[OF ok] by simp
  from same_position_same_index[OF d i(1) _ ] i(2,3) pj j(1) len have "i = j" by simp
  with i(2) lj x(3) have "level p < level e" by simp
  with f el show ?thesis by (auto simp: get_element_by_id_def)
qed

lemma nested_sample_elements:
  "parse_elements ucd_sample (split_nl nested_sample) Markdown = Some (Inr
     [new_element [T ''# A''] HEADING 1 0 0 1, new_element [T ''# Bb''] HEADING 2 1 1 1,
      new_element [T ''plain words''] PARAGRAPH 0 2 2 1])"
  unfolding parse_elements_def nested_sample_def
  by (simp add: parse_elements_loop.simps identify_element_def pattern_defs char_defs
      level_func_md_def ucd_sample_def extract_paragraph_def is_structured_line_def Let_def
      new_element_def)

lemma nested_sample_value:
  "parse_document ucd_sample nested_sample ''unknown'' = Some (Inr nested_structure)"
proof -
  have d: "detect_format nested_sample ''unknown'' = Markdown"
    by (simp add: nested_sample_def detect_format_def pattern_defs char_defs)
  have s: "nested_sample \<noteq> [] \<and> strip nested_sample \<noteq> []"
    by (simp add: nested_sample_def char_defs)
  show ?thesis
    unfolding parse_document_def nested_structure_def
    by (simp add: s d nested_sample_elements build_hierarchy_def new_element_def is_heading_def
        generate_table_of_contents_def build_hierarchy_loop.simps)
qed

theorem leaves_have_no_parent_witness:
  "parse_document ucd_sample nested_sample ''unknown'' = Some (Inr nested_structure)
   \<and> elements nested_structure ! 2 \<in> set (elements nested_structure)
   \<and> \<not> is_heading (elements nested_structure ! 2)
   \<and> hierarchy nested_structure 0 = Some [1]
   \<and> parent_id (elements nested_structure ! 2) = None
   \<and> level (elements nested_structure ! 2) = 0
   \<and> position (elements nested_structure ! 2) \<notin> set [1]"
proof -
  have m: "elements nested_structure ! 2 \<in> set (elements nested_structure)"
    by (simp add: nested_structure_def)
  have h: "\<not> is_heading (elements nested_structure ! 2)"
    by (simp add: nested_structure_def is_heading_def)
  have c: "hierarchy nested_structure 0 = Some [1]"
    by (simp add: nested_structure_def)
  from leaves_have_no_parent[OF nested_sample_value m h] c
  have "parent_id (elements nested_structure ! 2) = None
     \<and> position (elements nested_structure ! 2) \<notin> set [1]" by blast
  moreover have "level (elements nested_structure ! 2) = 0"
    by (simp add: nested_structure_def)
  ultimately show ?thesis using nested_sample_value m h c by simp
qed

theorem parent_level_below_child_witness:
  "parse_document ucd_sample nested_sample ''unknown'' = Some (Inr nested_structure)
   \<and> elements nested_structure ! 1 \<in> set (elements nested_structure)
   \<and> parent_id (elements nested_structure ! 1) = Some 0
   \<and> map_option level (get_element_by_id nested_structure 0) = Some 1
   \<and> level (elements nested_structure ! 1) = 2"
proof -
  have m: "elements nested_structure ! 1 \<in> set (elements nested_structure)"
    by (simp add: nested_structure_def)
  have p: "parent_id (elements nested_structure ! 1) = Some 0"
    by (simp add: nested_structure_def)
  from parent_level_below_child[OF nested_sample_value m p]
  obtain q where "get_element_by_id nested_structure 0 = Some q"
    "level q < level (elements nested_structure ! 1)" by blast
  moreover have "map_option level (get_element_by_id nested_structure 0) = Some 1"
    by (simp add: nested_structure_def get_element_by_id_def)
  moreover have "level (elements nested_structure ! 1) = 2"
    by (simp add: nested_structure_def)
  ultimately show ?thesis using nested_sample_value m p by simp
qed

section \<open>The language vote\<close>

lemma normalize_loop_calls:
  "normalize_loop U detect lvl es st = (cl, langs, calls, st') \<Longrightarrow>
     calls = map content (filter (\<lambda>e. 50 < length (strip (content e))) cl)
     \<and> langs = List.map_filter detect calls"
proof (induction es arbitrary: st cl langs calls st')
  case Nil
  then show ?case by (simp add: List.map_filter_simps)
next
  case (Cons e es)
  obtain ce st1 where c: "clean_element U lvl e st = (ce, st1)" by (cases "clean_element U lvl e st")
  obtain cl2 langs2 calls2 st2 where r: "normalize_loop U detect lvl es st1 = (cl2, langs2, calls2, st2)"
    by (cases "normalize_loop U detect lvl es st1") auto
  from Cons.IH[OF r] have ih: "calls2 = map content (filter (\<lambda>e. 50 < length (strip (content e))) cl2)"
    "langs2 = List.map_filter detect calls2" by auto
  from Cons.prems c r ih show ?case
    by (auto simp: List.map_filter_simps split: option.splits if_splits)
qed

lemma count_language_keys:
  "map fst (count_language al l) = (if l \<in> fst ` set al then map fst al else map fst al @ [l])"
  by (induction al l rule: count_language.induct) (auto simp: image_iff)

lemma count_language_key_set: "fst ` set (count_language al l) = insert l (fst ` set al)"
proof -
  have "set (map fst (count_language al l)) = insert l (set (map fst al))"
    unfolding count_language_keys by auto
  then show ?thesis by simp
qed

lemma count_of_count_language:
  "count_of (count_language al l) k = count_of al k + (if k = l then 1 else 0)"
  by (induction al l rule: count_language.induct) (auto simp: count_of_def)

lemma tally_simps [simp]: "tally [] al = al" "tally (l # ls) al = tally ls (count_language al l)"
  by (simp_all add: tally_def)

lemma tally_append: "tally (xs @ ys) al = tally ys (tally xs al)"
  by (simp add: tally_def)

lemma tally_keys_extend: "\<exists>ext. map fst (tally ls al) = map fst al @ ext"
proof (induction ls arbitrary: al)
  case Nil
  then show ?case by simp
next
  case (Cons l ls)
  from Cons.IH[of "count_language al l"] obtain ext where
    "map fst (tally ls (count_language al l)) = map fst (count_language al l) @ ext" by blast
  then show ?case by (auto simp: count_language_keys)
qed

lemma tally_key_set: "fst ` set (tally ls al) = fst ` set al \<union> set ls"
  by (induction ls arbitrary: al) (simp_all add: count_language_key_set)

lemma tally_distinct: "distinct (map fst al) \<Longrightarrow> distinct (map fst (tally ls al))"
  by (induction ls arbitrary: al) (auto simp: count_language_keys)

lemma count_of_tally: "count_of (tally ls al) k = count_of al k + count_list ls k"
  by (induction ls arbitrary: al) (simp_all add: count_of_count_language)

lemma tally_counts:
  assumes "(k, n) \<in> set (tally ls [])"
  shows "n = count_list ls k"
proof -
  have "distinct (map fst (tally ls []))" by (rule tally_distinct) simp
  with assms have "map_of (tally ls []) k = Some n" by simp
  then have c: "count_of (tally ls []) k = n" by (simp add: count_of_def)
  have "count_of [] k = 0" by (simp add: count_of_def)
  with c show ?thesis by (simp add: count_of_tally)
qed

lemma max_by_count_split:
  "max_by_count (k, n) r = k' \<Longrightarrow>
   \<exists>n'. n \<le> n' \<and> (\<forall>p\<in>set r. snd p \<le> n')
     \<and> ((k' = k \<and> n' = n) \<or> (\<exists>A B. r = A @ (k', n') # B \<and> n < n' \<and> (\<forall>p\<in>set A. snd p < n')))"
proof (induction r arbitrary: k n)
  case Nil
  then show ?case by simp
next
  case (Cons a r)
  obtain k1 n1 where a: "a = (k1, n1)" by (cases a)
  show ?case
  proof (cases "n1 > n")
    case True
    with Cons.prems a have "max_by_count (k1, n1) r = k'" by simp
    from Cons.IH[OF this] obtain n' where "n1 \<le> n' \<and> (\<forall>p\<in>set r. snd p \<le> n')
      \<and> ((k' = k1 \<and> n' = n1) \<or> (\<exists>A B. r = A @ (k', n') # B \<and> n1 < n' \<and> (\<forall>p\<in>set A. snd p < n')))"
      ..
    then have n': "n1 \<le> n'" "\<forall>p\<in>set r. snd p \<le> n'"
      "(k' = k1 \<and> n' = n1) \<or> (\<exists>A B. r = A @ (k', n') # B \<and> n1 < n' \<and> (\<forall>p\<in>set A. snd p < n'))"
      by simp_all
    from n'(1,2) True a have b1: "n \<le> n'" and b2: "\<forall>p\<in>set (a # r). snd p \<le> n'" by simp_all
    have R: "\<exists>A B. a # r = A @ (k', n') # B \<and> n < n' \<and> (\<forall>p\<in>set A. snd p < n')"
      using n'(3)
    proof
      assume "k' = k1 \<and> n' = n1"
      with True a have "a # r = [] @ (k', n') # r \<and> n < n' \<and> (\<forall>p\<in>set []. snd p < n')" by simp
      then show ?thesis by (intro exI)
    next
      assume "\<exists>A B. r = A @ (k', n') # B \<and> n1 < n' \<and> (\<forall>p\<in>set A. snd p < n')"
      then obtain A B where AB: "r = A @ (k', n') # B \<and> n1 < n' \<and> (\<forall>p\<in>set A. snd p < n')"
        by (elim exE)
      then have "a # r = (a # A) @ (k', n') # B \<and> n < n' \<and> (\<forall>p\<in>set (a # A). snd p < n')"
        using a True by simp
      then show ?thesis by (intro exI)
    qed
    from b1 b2 R have "n \<le> n' \<and> (\<forall>p\<in>set (a # r). snd p \<le> n')
     \<and> ((k' = k \<and> n' = n) \<or> (\<exists>A B. a # r = A @ (k', n') # B \<and> n < n' \<and> (\<forall>p\<in>set A. snd p < n')))"
      by (intro conjI disjI2)
    then show ?thesis ..
  next
    case False
    with Cons.prems a have "max_by_count (k, n) r = k'" by simp
    from Cons.IH[OF this] obtain n' where "n \<le> n' \<and> (\<forall>p\<in>set r. snd p \<le> n')
      \<and> ((k' = k \<and> n' = n) \<or> (\<exists>A B. r = A @ (k', n') # B \<and> n < n' \<and> (\<forall>p\<in>set A. snd p < n')))"
      ..
    then have n': "n \<le> n'" "\<forall>p\<in>set r. snd p \<le> n'"
      "(k' = k \<and> n' = n) \<or> (\<exists>A B. r = A @ (k', n') # B \<and> n < n' \<and> (\<forall>p\<in>set A. snd p < n'))"
      by simp_all
    from n'(1,2) False a have b1: "n \<le> n'" and b2: "\<forall>p\<in>set (a # r). snd p \<le> n'" by simp_all
    have R: "(k' = k \<and> n' = n) \<or> (\<exists>A B. a # r = A @ (k', n') # B \<and> n < n' \<and> (\<forall>p\<in>set A. snd p < n'))"
      using n'(3)
    proof
      assume "k' = k \<and> n' = n"
      then show ?thesis by (rule disjI1)
    next
      assume "\<exists>A B. r = A @ (k', n') # B \<and> n < n' \<and> (\<forall>p\<in>set A. snd p < n')"
      then obtain A B where AB: "r = A @ (k', n') # B \<and> n < n' \<and> (\<forall>p\<in>set A. snd p < n')"
        by (elim exE)
      then have "a # r = (a # A) @ (k', n') # B \<and> n < n' \<and> (\<forall>p\<in>set (a # A). snd p < n')"
        using a False by simp
      then show ?thesis by (intro disjI2 exI)
    qed
    from b1 b2 R have "n \<le> n' \<and> (\<forall>p\<in>set (a # r). snd p \<le> n')
     \<and> ((k' = k \<and> n' = n) \<or> (\<exists>A B. a # r = A @ (k', n') # B \<and> n < n' \<and> (\<forall>p\<in>set A. snd p < n')))"
      by (intro conjI)
    then show ?thesis ..
  qed
qed

lemma max_by_count_first:
  assumes "max_by_count kn r = k'"
  shows "\<exists>A B n'. kn # r = A @ (k', n') # B \<and> (\<forall>p\<in>set A. snd p < n')
           \<and> (\<forall>p\<in>set (kn # r). snd p \<le> n')"
proof -
  obtain k n where kn: "kn = (k, n)" by (cases kn)
  from max_by_count_split[OF assms[unfolded kn]] obtain n' where "n \<le> n' \<and> (\<forall>p\<in>set r. snd p \<le> n')
     \<and> ((k' = k \<and> n' = n) \<or> (\<exists>A B. r = A @ (k', n') # B \<and> n < n' \<and> (\<forall>p\<in>set A. snd p < n')))"
    ..
  then have n': "n \<le> n'" "\<forall>p\<in>set r. snd p \<le> n'"
    "(k' = k \<and> n' = n) \<or> (\<exists>A B. r = A @ (k', n') # B \<and> n < n' \<and> (\<forall>p\<in>set A. snd p < n'))"
    by simp_all
  from n'(1,2) kn have b: "\<forall>p\<in>set (kn # r). snd p \<le> n'" by simp
  from n'(3) show ?thesis
  proof
    assume "k' = k \<and> n' = n"
    with b kn have "kn # r = [] @ (k', n') # r \<and> (\<forall>p\<in>set []. snd p < n')
           \<and> (\<forall>p\<in>set (kn # r). snd p \<le> n')" by simp
    then show ?thesis by (intro exI)
  next
    assume "\<exists>A B. r = A @ (k', n') # B \<and> n < n' \<and> (\<forall>p\<in>set A. snd p < n')"
    then obtain A B where AB: "r = A @ (k', n') # B \<and> n < n' \<and> (\<forall>p\<in>set A. snd p < n')"
      by (elim exE)
    with b kn have "kn # r = (kn # A) @ (k', n') # B \<and> (\<forall>p\<in>set (kn # A). snd p < n')
           \<and> (\<forall>p\<in>set (kn # r). snd p \<le> n')" by simp
    then show ?thesis by (intro exI)
  qed
qed

lemma first_split_unique:
  assumes "xs @ w # ys = xs' @ w # ys'" and "w \<notin> set xs" and "w \<notin> set xs'"
  shows "xs = xs'"
proof -
  have t: "\<And>zs us. w \<notin> set zs \<Longrightarrow> takeWhile (\<lambda>x. x \<noteq> w) (zs @ w # us) = zs"
  proof -
    fix zs us show "w \<notin> set zs \<Longrightarrow> takeWhile (\<lambda>x. x \<noteq> w) (zs @ w # us) = zs"
      by (induction zs) auto
  qed
  from t[OF assms(2), of ys] t[OF assms(3), of ys'] assms(1) show ?thesis by simp
qed

lemma determine_language_tally:
  "determine_language ls = (case tally ls [] of [] \<Rightarrow> T ''unknown'' | kn # r \<Rightarrow> max_by_count kn r)"
  by (cases ls) (simp_all add: determine_language_def tally_def)

lemma determine_language_first_max:
  assumes "ls \<noteq> []"
  shows "\<exists>pre post. ls = pre @ determine_language ls # post
     \<and> (\<forall>l\<in>set pre. count_list ls l < count_list ls (determine_language ls))
     \<and> (\<forall>l. count_list ls l \<le> count_list ls (determine_language ls))"
proof -
  let ?al = "tally ls []"
  let ?w = "determine_language ls"
  have keys: "fst ` set ?al = set ls" by (simp add: tally_key_set)
  with assms have "?al \<noteq> []" by auto
  then obtain kn r where al: "?al = kn # r" by (cases ?al) auto
  then have w: "max_by_count kn r = ?w" by (simp add: determine_language_tally)
  from max_by_count_first[OF w] obtain A B n' where
    F: "kn # r = A @ (?w, n') # B \<and> (\<forall>p\<in>set A. snd p < n') \<and> (\<forall>p\<in>set (kn # r). snd p \<le> n')"
    by (elim exE)
  from F have F1: "kn # r = A @ (?w, n') # B" by (rule conjunct1)
  from F have lowA: "\<forall>p\<in>set A. snd p < n'" by (rule conjunct2[THEN conjunct1])
  from F have F3: "\<forall>p\<in>set (kn # r). snd p \<le> n'" by (rule conjunct2[THEN conjunct2])
  have sp: "?al = A @ (?w, n') # B" unfolding al by (rule F1)
  have le: "\<forall>p\<in>set ?al. snd p \<le> n'" unfolding al by (rule F3)
  from sp have "(?w, n') \<in> set ?al" by simp
  then have n': "n' = count_list ls ?w" by (rule tally_counts)
  from sp keys have "?w \<in> set ls" by (metis fst_conv image_eqI in_set_conv_decomp)
  then obtain pre post where ls: "ls = pre @ ?w # post" and npre: "?w \<notin> set pre"
    by (auto dest: split_list_first)
  have d: "distinct (map fst ?al)" by (rule tally_distinct) simp
  let ?K = "map fst (tally pre [])"
  have K: "set ?K = set pre" using tally_key_set[of pre "[]"] by simp
  have "tally ls [] = tally post (count_language (tally pre []) ?w)"
    by (subst ls) (simp add: tally_append)
  moreover obtain ext where
    "map fst (tally post (count_language (tally pre []) ?w)) = map fst (count_language (tally pre []) ?w) @ ext"
    using tally_keys_extend by blast
  moreover have "map fst (count_language (tally pre []) ?w) = ?K @ [?w]"
    using K npre by (simp add: count_language_keys)
  ultimately have k1: "map fst ?al = ?K @ ?w # ext" by simp
  from sp have k2: "map fst ?al = map fst A @ ?w # map fst B" by simp
  from d k2 have nA: "?w \<notin> set (map fst A)" by auto
  from K npre have nK: "?w \<notin> set ?K" by simp
  from k1 k2 have "?K @ ?w # ext = map fst A @ ?w # map fst B" by simp
  from first_split_unique[OF this nK nA] have KA: "?K = map fst A" .
  have low: "\<forall>l\<in>set pre. count_list ls l < count_list ls ?w"
  proof
    fix l assume "l \<in> set pre"
    with K KA have "l \<in> set (map fst A)" by simp
    then obtain m where m: "(l, m) \<in> set A" by auto
    with lowA have "m < n'" by auto
    moreover from m sp have "(l, m) \<in> set ?al" by simp
    then have "m = count_list ls l" by (rule tally_counts)
    ultimately show "count_list ls l < count_list ls ?w" using n' by simp
  qed
  have all: "\<forall>l. count_list ls l \<le> count_list ls ?w"
  proof
    fix l
    show "count_list ls l \<le> count_list ls ?w"
    proof (cases "l \<in> set ls")
      case True
      with keys have "l \<in> fst ` set ?al" by simp
      then obtain m where m: "(l, m) \<in> set ?al" by force
      with le have "m \<le> n'" by auto
      moreover from m have "m = count_list ls l" by (rule tally_counts)
      ultimately show ?thesis using n' by simp
    next
      case False
      then show ?thesis by (simp add: count_list_0_iff)
    qed
  qed
  from ls low all show ?thesis by blast
qed

text \<open>
  C7, amended: normalize calls the detector exactly on the cleaned elements whose content,
  with leading and trailing whitespace stripped, is longer than 50 characters, in element
  order; the votes are the codes of the calls that succeed (a failing call drops only its
  own element, and normalize returns in every case); the detected language is the
  unknown value when there is no vote, and otherwise a code with the largest number of
  votes such that every code voted before its first vote has strictly fewer votes.
\<close>

theorem language_vote:
  "detector_calls U detect lvl S =
     map content (filter (\<lambda>e. 50 < length (strip (content e)))
       (cleaned_elements (normalize_document U detect lvl S)))
   \<and> detected_language (normalize_document U detect lvl S) =
       determine_language (List.map_filter detect (detector_calls U detect lvl S))
   \<and> (case List.map_filter detect (detector_calls U detect lvl S) of
        [] \<Rightarrow> detected_language (normalize_document U detect lvl S) = T ''unknown''
      | v # vs \<Rightarrow>
        (\<exists>pre post.
           v # vs = pre @ detected_language (normalize_document U detect lvl S) # post
           \<and> (\<forall>l\<in>set pre. count_list (v # vs) l
                 < count_list (v # vs) (detected_language (normalize_document U detect lvl S)))
           \<and> (\<forall>l. count_list (v # vs) l
                 \<le> count_list (v # vs) (detected_language (normalize_document U detect lvl S)))))"
proof -
  obtain cl langs calls st where loop: "normalize_loop U detect lvl (elements S)
      (new_stats\<lparr>original_chars := sum_list (map (\<lambda>e. length (content e)) (elements S))\<rparr>)
    = (cl, langs, calls, st)"
    by (metis prod_cases4)
  note f = normalize_run_fields[OF loop]
  from normalize_loop_calls[OF loop]
  have c: "calls = map content (filter (\<lambda>e. 50 < length (strip (content e))) cl)"
    and l: "langs = List.map_filter detect calls" by simp_all
  let ?votes = "List.map_filter detect (detector_calls U detect lvl S)"
  let ?lang = "detected_language (normalize_document U detect lvl S)"
  have 1: "detector_calls U detect lvl S =
     map content (filter (\<lambda>e. 50 < length (strip (content e)))
       (cleaned_elements (normalize_document U detect lvl S)))"
    by (simp add: f(1,3) c)
  have 2: "?lang = determine_language ?votes"
    by (simp add: f(2,3) l)
  have 3: "(case ?votes of
        [] \<Rightarrow> ?lang = T ''unknown''
      | v # vs \<Rightarrow>
        (\<exists>pre post. v # vs = pre @ ?lang # post
           \<and> (\<forall>l\<in>set pre. count_list (v # vs) l < count_list (v # vs) ?lang)
           \<and> (\<forall>l. count_list (v # vs) l \<le> count_list (v # vs) ?lang)))"
  proof (cases ?votes)
    case Nil
    with 2 show ?thesis by (simp add: determine_language_def)
  next
    case (Cons v vs)
    then have "?votes \<noteq> []" by simp
    from determine_language_first_max[OF this]
    have "\<exists>pre post. ?votes = pre @ determine_language ?votes # post
       \<and> (\<forall>l\<in>set pre. count_list ?votes l < count_list ?votes (determine_language ?votes))
       \<and> (\<forall>l. count_list ?votes l \<le> count_list ?votes (determine_language ?votes))" .
    then have "\<exists>pre post. ?votes = pre @ ?lang # post
       \<and> (\<forall>l\<in>set pre. count_list ?votes l < count_list ?votes ?lang)
       \<and> (\<forall>l. count_list ?votes l \<le> count_list ?votes ?lang)"
      by (simp only: 2[symmetric])
    then show ?thesis by (simp only: Cons list.case)
  qed
  from 1 2 3 show ?thesis by (intro conjI)
qed

lemma solid_replicate: "0 < n \<Longrightarrow> 33 \<le> c \<Longrightarrow> c \<le> 126 \<Longrightarrow> solid (replicate n c)"
  by (simp add: solid_def)

lemma nfc_sample_id: "\<forall>c\<in>set s. c \<noteq> 2392 \<Longrightarrow> nfc ucd_sample s = s"
  by (induction s) (simp_all add: ucd_sample_def)

lemma remove_invisible_id:
  assumes "\<forall>c\<in>set s. c \<notin> set invisible_chars \<and> \<not> is_control c"
  shows "remove_invisible_characters s st = (s, st)"
proof -
  have "\<And>cs. \<forall>c\<in>set s. c \<notin> set cs \<Longrightarrow> fold (\<lambda>ch s. filter (\<lambda>x. x \<noteq> ch) s) cs s = s"
  proof -
    fix cs show "\<forall>c\<in>set s. c \<notin> set cs \<Longrightarrow> fold (\<lambda>ch s. filter (\<lambda>x. x \<noteq> ch) s) cs s = s"
    proof (induction cs)
      case Nil
      then show ?case by simp
    next
      case (Cons a cs)
      then have "filter (\<lambda>x. x \<noteq> a) s = s" by (auto simp: filter_id_conv)
      with Cons show ?case by simp
    qed
  qed
  with assms have "fold (\<lambda>ch s. filter (\<lambda>x. x \<noteq> ch) s) invisible_chars s = s" by blast
  moreover from assms have "filter (\<lambda>x. \<not> is_control x) s = s" by (auto simp: filter_id_conv)
  ultimately show ?thesis by (simp add: remove_invisible_characters_def)
qed

lemma replace_crlf_id: "13 \<notin> set s \<Longrightarrow> replace_crlf s = s"
  by (induction s rule: replace_crlf.induct) auto

lemma replace_cr_id: "13 \<notin> set s \<Longrightarrow> replace_cr s = s"
  by (induction s) (auto simp: replace_cr_def)

lemma split_nl_line: "10 \<notin> set p \<Longrightarrow> split_nl p = [p]"
  by (induction p) auto

lemma strip_id: "p \<noteq> [] \<Longrightarrow> \<not> isspace (hd p) \<Longrightarrow> \<not> isspace (last p) \<Longrightarrow> strip p = p"
proof -
  assume a: "p \<noteq> []" "\<not> isspace (hd p)" "\<not> isspace (last p)"
  then have "dropWhile isspace p = p" by (cases p) auto
  moreover from a have "dropWhile isspace (rev p) = rev p"
    by (cases "rev p") (auto simp: last_rev hd_rev)
  ultimately show ?thesis by (simp add: strip_def)
qed

lemma collapse_spaces_id: "32 \<notin> set s \<Longrightarrow> collapse_spaces s = s"
  by (induction s rule: collapse_spaces.induct) auto

lemma collapse_tabs_id: "9 \<notin> set s \<Longrightarrow> collapse_tabs s = s"
  by (induction s rule: collapse_tabs.induct) auto

lemma collapse_newlines_id: "10 \<notin> set s \<Longrightarrow> collapse_newlines s = s"
  by (induction s rule: collapse_newlines.induct) auto

lemma printable_not_space: "33 \<le> c \<Longrightarrow> c \<le> 126 \<Longrightarrow> \<not> isspace c"
  by (auto simp: isspace_def)

lemma solid_ends: "solid p \<Longrightarrow> \<not> isspace (hd p) \<and> \<not> isspace (last p)"
  by (simp add: solid_def printable_not_space)

lemma solid_facts:
  assumes "solid p"
  shows "p \<noteq> []" "strip p = p" "10 \<notin> set p" "13 \<notin> set p" "32 \<notin> set p" "9 \<notin> set p"
    "\<forall>c\<in>set p. c \<noteq> 2392" "\<forall>c\<in>set p. c \<notin> set invisible_chars \<and> \<not> is_control c"
proof -
  from assms show ne: "p \<noteq> []" by (simp add: solid_def)
  from assms have r: "\<forall>c\<in>set p. 33 \<le> c \<and> c \<le> 126" by (simp add: solid_def)
  from ne solid_ends[OF assms] show "strip p = p" by (simp add: strip_id)
  from r show "10 \<notin> set p" "13 \<notin> set p" "32 \<notin> set p" "9 \<notin> set p" by auto
  from r show "\<forall>c\<in>set p. c \<noteq> 2392" by auto
  from r show "\<forall>c\<in>set p. c \<notin> set invisible_chars \<and> \<not> is_control c"
    by (auto simp: invisible_chars_def is_control_def)
qed

lemma solid_clean_any:
  assumes "solid p" and "nfc U p = p"
  shows "clean_element U MINIMAL (paragraph_of p) st = (Some (paragraph_of p), st)"
proof -
  note f = solid_facts[OF assms(1)]
  have nu: "normalize_unicode U p st = (p, st)"
    by (simp add: normalize_unicode_def assms(2))
  have fl: "fix_line_breaks U p st = (p, st)"
    by (simp add: fix_line_breaks_def replace_crlf_id replace_cr_id split_nl_line f)
  have sw: "standardize_whitespace p st = (p, st)"
    by (simp add: standardize_whitespace_def collapse_spaces_id collapse_tabs_id
        collapse_newlines_id split_nl_line f)
  show ?thesis
    by (simp add: clean_element_def paragraph_of_def f nu remove_invisible_id fl sw)
qed

lemma solid_clean:
  assumes "solid p"
  shows "clean_element ucd_sample MINIMAL (paragraph_of p) st = (Some (paragraph_of p), st)"
  using assms solid_facts(7)[OF assms] by (intro solid_clean_any nfc_sample_id)

lemma collapse_newlines_padded:
  assumes "10 \<notin> set p"
  shows "collapse_newlines (10 # 10 # p) = 10 # 10 # p"
proof (cases p)
  case Nil
  then show ?thesis by simp
next
  case (Cons e r)
  with assms have e: "e \<noteq> 10" by auto
  have "collapse_newlines (10 # e # r) = 10 # e # r"
  proof (cases r)
    case Nil
    then show ?thesis by simp
  next
    case (Cons f r')
    with e assms \<open>p = e # r\<close> show ?thesis
      using collapse_newlines_id[of "e # f # r'"] by simp
  qed
  with Cons e show ?thesis by simp
qed

lemma padded_clean:
  assumes "solid p"
  shows "clean_element ucd_sample MINIMAL (paragraph_of (10 # 10 # p)) st =
     (Some (paragraph_of (10 # 10 # p)), st)"
proof -
  note f = solid_facts[OF assms]
  let ?s = "10 # 10 # p"
  have sp: "isspace 10" by (simp add: isspace_def)
  have st: "strip ?s = p"
    using f(2) by (simp add: strip_def sp)
  have nu: "normalize_unicode ucd_sample ?s st = (?s, st)"
    using f by (simp add: normalize_unicode_def nfc_sample_id)
  have ri: "remove_invisible_characters ?s st = (?s, st)"
    using f by (intro remove_invisible_id) (auto simp: invisible_chars_def is_control_def)
  have spl: "split_nl ?s = [[], [], p]"
    by (simp add: split_nl_line f)
  have s0: "strip [] = []" by (simp add: strip_def)
  have fl: "fix_line_breaks ucd_sample ?s st = (?s, st)"
    using f by (simp add: fix_line_breaks_def replace_crlf_id replace_cr_id spl s0
        del: split_nl.simps)
  have c1: "collapse_spaces ?s = ?s" using f by (simp add: collapse_spaces_id)
  have c2: "collapse_tabs ?s = ?s" using f by (simp add: collapse_tabs_id)
  have c3: "join_nl (map strip (split_nl ?s)) = ?s"
    using f by (simp add: spl s0 del: split_nl.simps)
  have c4: "collapse_newlines ?s = ?s"
    using f by (intro collapse_newlines_padded)
  have sw: "standardize_whitespace ?s st = (?s, st)"
    by (simp add: standardize_whitespace_def c1 c2 c3 c4
        del: collapse_spaces.simps collapse_tabs.simps collapse_newlines.simps split_nl.simps)
  from f(1) st have ne: "strip ?s \<noteq> []" by simp
  show ?thesis
    using ne by (simp add: clean_element_def paragraph_of_def nu ri fl sw del: split_nl.simps)
qed

lemma padded_sample_run:
  "normalize_loop ucd_sample detect MINIMAL [paragraph_of padded_sample] st =
     ([paragraph_of padded_sample], [], [], st)"
proof -
  have s: "solid (replicate 49 120)" by (simp add: solid_replicate)
  have "strip padded_sample = replicate 49 120"
    using solid_facts(2)[OF s] by (simp add: padded_sample_def strip_def isspace_def)
  then show ?thesis
    using padded_clean[OF s] by (simp add: padded_sample_def)
qed

text \<open>
  C7, as stated, fails: the cleaned content of the element below has 51 characters, more
  than 50, and the detector is not called on it, because without its two leading
  newlines it has 49.
\<close>

theorem stripped_length_counterexample:
  "map (\<lambda>e. length (content e))
     (cleaned_elements (normalize_document ucd_sample (\<lambda>s. Some (T ''en'')) MINIMAL
        (structure_of [paragraph_of padded_sample]))) = [51]
   \<and> detector_calls ucd_sample (\<lambda>s. Some (T ''en'')) MINIMAL
        (structure_of [paragraph_of padded_sample]) = []
   \<and> detected_language (normalize_document ucd_sample (\<lambda>s. Some (T ''en'')) MINIMAL
        (structure_of [paragraph_of padded_sample])) = T ''unknown''"
proof -
  let ?S = "structure_of [paragraph_of padded_sample]"
  have loop: "normalize_loop ucd_sample (\<lambda>s. Some (T ''en'')) MINIMAL (elements ?S)
      (new_stats\<lparr>original_chars := sum_list (map (\<lambda>e. length (content e)) (elements ?S))\<rparr>)
    = ([paragraph_of padded_sample], [], [],
       new_stats\<lparr>original_chars := sum_list (map (\<lambda>e. length (content e)) (elements ?S))\<rparr>)"
    by (simp add: padded_sample_run del: normalize_loop.simps)
  note f = normalize_run_fields[OF loop]
  have "length padded_sample = 51" by (simp add: padded_sample_def)
  then show ?thesis
    by (simp add: f(1,2,3) determine_language_def)
qed

lemma vote_structure_loop:
  "normalize_loop ucd_sample vote_detect MINIMAL (elements vote_structure) st =
     (elements vote_structure,
      [T ''de'', T ''fr'', T ''en'', T ''en'', T ''fr''],
      [replicate 51 100, replicate 51 102, replicate 51 101, replicate 51 101, replicate 51 102,
       replicate 51 120],
      st)"
proof -
  have s: "solid (replicate 51 100)" "solid (replicate 51 102)" "solid (replicate 51 101)"
    "solid (replicate 51 120)" "solid (replicate 50 100)"
    by (simp_all add: solid_replicate)
  note st = s[THEN solid_facts(2)] 
  note ne = s[THEN solid_facts(1)] 
  note cl = s[THEN solid_clean]
  have d: "vote_detect (replicate 51 100) = Some (T ''de'')"
    "vote_detect (replicate 51 102) = Some (T ''fr'')"
    "vote_detect (replicate 51 101) = Some (T ''en'')"
    "vote_detect (replicate 51 120) = None"
    by (simp_all add: vote_detect_def hd_replicate)
  show ?thesis
    by (simp add: vote_structure_def cl st ne d)
qed

theorem language_vote_witness:
  "detector_calls ucd_sample vote_detect MINIMAL vote_structure =
     [replicate 51 100, replicate 51 102, replicate 51 101, replicate 51 101, replicate 51 102,
      replicate 51 120]
   \<and> List.map_filter vote_detect (detector_calls ucd_sample vote_detect MINIMAL vote_structure) =
       [T ''de''] @ T ''fr'' # [T ''en'', T ''en'', T ''fr'']
   \<and> detected_language (normalize_document ucd_sample vote_detect MINIMAL vote_structure) = T ''fr''"
proof -
  note f = normalize_run_fields[OF vote_structure_loop]
  have s: "solid (replicate 51 100)" "solid (replicate 51 102)" "solid (replicate 51 101)"
    "solid (replicate 51 120)" "solid (replicate 50 100)"
    by (simp_all add: solid_replicate)
  note st = s[THEN solid_facts(2)]
  have d: "vote_detect (replicate 51 100) = Some (T ''de'')"
    "vote_detect (replicate 51 102) = Some (T ''fr'')"
    "vote_detect (replicate 51 101) = Some (T ''en'')"
    "vote_detect (replicate 51 120) = None"
    by (simp_all add: vote_detect_def hd_replicate)
  from language_vote[of ucd_sample vote_detect MINIMAL vote_structure]
  have c: "detector_calls ucd_sample vote_detect MINIMAL vote_structure =
     map content (filter (\<lambda>e. 50 < length (strip (content e)))
       (cleaned_elements (normalize_document ucd_sample vote_detect MINIMAL vote_structure)))"
    and l: "detected_language (normalize_document ucd_sample vote_detect MINIMAL vote_structure) =
       determine_language (List.map_filter vote_detect
         (detector_calls ucd_sample vote_detect MINIMAL vote_structure))"
    by simp_all
  have calls: "detector_calls ucd_sample vote_detect MINIMAL vote_structure =
     [replicate 51 100, replicate 51 102, replicate 51 101, replicate 51 101, replicate 51 102,
      replicate 51 120]"
    unfolding c f(1) by (simp add: vote_structure_def st)
  have votes: "List.map_filter vote_detect
      [replicate 51 100, replicate 51 102, replicate 51 101, replicate 51 101, replicate 51 102,
       replicate 51 120] = [T ''de'', T ''fr'', T ''en'', T ''en'', T ''fr'']"
    by (simp add: List.map_filter_simps d)
  have "determine_language [T ''de'', T ''fr'', T ''en'', T ''en'', T ''fr''] = T ''fr''"
    by (simp add: determine_language_def T_def)
  with l calls votes show ?thesis by simp
qed

section \<open>Lengths and counters through the cleaning passes\<close>

lemma split_nl_nonempty [simp]: "split_nl s \<noteq> []"
  by (induction s) (auto split: list.splits)

lemma join_nl_Cons: "ls \<noteq> [] \<Longrightarrow> join_nl (l # ls) = l @ 10 # join_nl ls"
  by (cases ls) auto

lemma join_nl_push: "join_nl ((c # l) # ls) = c # join_nl (l # ls)"
  by (cases ls) auto

lemma join_split: "join_nl (split_nl s) = s"
proof (induction s)
  case Nil
  then show ?case by simp
next
  case (Cons c cs)
  obtain l ls where s: "split_nl cs = l # ls" by (cases "split_nl cs") auto
  with Cons show ?case by (auto simp: join_nl_Cons join_nl_push)
qed

lemma length_join_nl: "length (join_nl ls) = sum_list (map length ls) + (length ls - 1)"
  by (induction ls rule: join_nl.induct) auto

lemma split_nl_no_newline: "l \<in> set (split_nl s) \<Longrightarrow> 10 \<notin> set l"
  by (induction s arbitrary: l) (auto split: if_splits list.splits)

lemma split_nl_append: "10 \<notin> set l \<Longrightarrow> split_nl (l @ 10 # r) = l # split_nl r"
  by (induction l) (auto split: list.splits)

lemma split_nl_single: "10 \<notin> set l \<Longrightarrow> split_nl l = [l]"
  by (induction l) auto

lemma split_join: "ls \<noteq> [] \<Longrightarrow> \<forall>l\<in>set ls. 10 \<notin> set l \<Longrightarrow> split_nl (join_nl ls) = ls"
proof (induction ls rule: join_nl.induct)
  case 1
  then show ?case by simp
next
  case (2 l)
  then show ?case by (simp add: split_nl_single)
next
  case (3 l v va)
  then show ?case by (simp add: split_nl_append del: split_nl.simps)
qed

lemma length_strip: "length (strip s) \<le> length s"
proof -
  have "length (dropWhile isspace (rev (dropWhile isspace s))) \<le> length (rev (dropWhile isspace s))"
    by (rule length_dropWhile_le)
  also have "\<dots> \<le> length s" by (simp add: length_dropWhile_le)
  finally show ?thesis by (simp add: strip_def)
qed

lemma set_strip: "set (strip s) \<subseteq> set s"
proof -
  have "set (dropWhile isspace (rev (dropWhile isspace s))) \<subseteq> set (rev (dropWhile isspace s))"
    by (rule set_dropWhileD[THEN subsetI])
  also have "\<dots> \<subseteq> set s" using set_dropWhileD[of _ isspace s] by auto
  finally show ?thesis by (simp add: strip_def)
qed

lemma length_strip_trailing:
  assumes "z \<noteq> []" and "isspace (last z)"
  shows "length (strip z) < length z"
proof (cases "dropWhile isspace z = []")
  case True
  have "strip z = []" unfolding strip_def True by simp
  with assms(1) show ?thesis by simp
next
  case False
  let ?z' = "dropWhile isspace z"
  have "z = takeWhile isspace z @ ?z'" by simp
  with False have "last ?z' = last z" by (metis last_appendR)
  with assms(2) False have "isspace (hd (rev ?z'))" by (simp add: hd_rev)
  with False have "length (dropWhile isspace (rev ?z')) < length (rev ?z')"
    by (cases "rev ?z'") (auto simp: le_imp_less_Suc length_dropWhile_le)
  also have "\<dots> \<le> length z" by (simp add: length_dropWhile_le)
  finally show ?thesis by (simp add: strip_def)
qed

lemma length_collapse_spaces: "length (collapse_spaces s) \<le> length s"
  by (induction s rule: collapse_spaces.induct) auto

lemma length_collapse_tabs: "length (collapse_tabs s) \<le> length s"
  by (induction s rule: collapse_tabs.induct) auto

lemma length_collapse_newlines: "length (collapse_newlines s) \<le> length s"
  by (induction s rule: collapse_newlines.induct) auto

lemma collapse_spaces_Nil: "collapse_spaces s = [] \<longleftrightarrow> s = []"
  by (induction s rule: collapse_spaces.induct) auto

lemma collapse_tabs_Nil: "collapse_tabs s = [] \<longleftrightarrow> s = []"
  by (induction s rule: collapse_tabs.induct) auto

lemma last_collapse_spaces: "s \<noteq> [] \<Longrightarrow> last (collapse_spaces s) = last s"
  by (induction s rule: collapse_spaces.induct) (auto simp: collapse_spaces_Nil)

lemma last_collapse_tabs: "s \<noteq> [] \<Longrightarrow> last s = 32 \<Longrightarrow> last (collapse_tabs s) = 32"
  by (induction s rule: collapse_tabs.induct) (auto simp: collapse_tabs_Nil split: if_splits)

lemma set_collapse_spaces: "set (collapse_spaces s) \<subseteq> set s"
  by (induction s rule: collapse_spaces.induct) auto

lemma set_collapse_tabs: "set (collapse_tabs s) \<subseteq> insert 32 (set s)"
  by (induction s rule: collapse_tabs.induct) auto

lemma collapse_spaces_append:
  "collapse_spaces (a @ 10 # b) = collapse_spaces a @ 10 # collapse_spaces b"
proof (induction a rule: collapse_spaces.induct)
  case 1
  then show ?case by (cases b) auto
next
  case (2 c)
  then show ?case by (cases b) auto
next
  case (3 c d r)
  then show ?case by auto
qed

lemma collapse_tabs_append:
  "collapse_tabs (a @ 10 # b) = collapse_tabs a @ 10 # collapse_tabs b"
proof (induction a rule: collapse_tabs.induct)
  case 1
  then show ?case by (cases b) auto
next
  case (2 c)
  then show ?case by (cases b) auto
next
  case (3 c d r)
  then show ?case by auto
qed

lemma collapse_spaces_join:
  "collapse_spaces (join_nl ls) = join_nl (map collapse_spaces ls)"
  by (induction ls rule: join_nl.induct) (simp_all add: collapse_spaces_append)

lemma collapse_tabs_join:
  "collapse_tabs (join_nl ls) = join_nl (map collapse_tabs ls)"
  by (induction ls rule: join_nl.induct) (simp_all add: collapse_tabs_append)

lemma remove_headers_footers_lines_fst:
  "fst (remove_headers_footers_lines U (l # ls) st) =
     (if list_ex (\<lambda>p. re_match p (strip l)) (header_patterns U) then
        fst (remove_headers_footers_lines U ls (st\<lparr>headers_removed := headers_removed st + 1\<rparr>))
      else if list_ex (\<lambda>p. re_search p (strip l)) (footer_patterns U) then
        fst (remove_headers_footers_lines U ls (st\<lparr>footers_removed := footers_removed st + 1\<rparr>))
      else l # fst (remove_headers_footers_lines U ls st))"
  by (simp add: Let_def split: prod.splits)

lemma remove_headers_footers_fst:
  "fst (remove_headers_footers U c st) = join_nl (fst (remove_headers_footers_lines U (split_nl c) st))"
  by (simp add: remove_headers_footers_def split: prod.splits)

lemma remove_headers_footers_lines_size:
  "sum_list (map length (fst (remove_headers_footers_lines U ls st))) \<le> sum_list (map length ls)
   \<and> length (fst (remove_headers_footers_lines U ls st)) \<le> length ls"
proof (induction ls arbitrary: st)
  case Nil
  then show ?case by simp
next
  case (Cons l ls)
  note ih = Cons.IH[of st]
    Cons.IH[of "st\<lparr>headers_removed := headers_removed st + 1\<rparr>"]
    Cons.IH[of "st\<lparr>footers_removed := footers_removed st + 1\<rparr>"]
  show ?case
    unfolding remove_headers_footers_lines_fst using ih by (simp del: remove_headers_footers_lines.simps)
qed

lemma join_nl_size:
  assumes "sum_list (map length ks) \<le> sum_list (map length ls)" and "length ks \<le> length ls"
  shows "length (join_nl ks) \<le> length (join_nl ls)"
  using assms by (simp add: length_join_nl)

lemma length_remove_headers_footers:
  "length (fst (remove_headers_footers U c st)) \<le> length c"
proof -
  have "length (join_nl (fst (remove_headers_footers_lines U (split_nl c) st)))
      \<le> length (join_nl (split_nl c))"
    using remove_headers_footers_lines_size[of U "split_nl c" st] by (intro join_nl_size) simp_all
  then show ?thesis
    by (simp add: remove_headers_footers_fst join_split)
qed

lemma remove_redundant_lines_size:
  "sum_list (map length (remove_redundant_lines U ls acc))
     \<le> sum_list (map length acc) + sum_list (map length ls)
   \<and> length (remove_redundant_lines U ls acc) \<le> length acc + length ls"
proof (induction ls arbitrary: acc)
  case Nil
  then show ?case by simp
next
  case (Cons l ls)
  from Cons.IH[of acc] Cons.IH[of "acc @ [strip l]"] length_strip[of l]
  show ?case by auto
qed

lemma length_remove_redundant_content:
  "length (fst (remove_redundant_content U c st)) \<le> length c"
proof -
  have "length (join_nl (remove_redundant_lines U (split_nl c) [])) \<le> length (join_nl (split_nl c))"
    using remove_redundant_lines_size[of U "split_nl c" "[]"] by (intro join_nl_size) auto
  then show ?thesis by (simp add: remove_redundant_content_def join_split)
qed

lemma length_fold_filter:
  "length (fold (\<lambda>ch s. filter (\<lambda>x. x \<noteq> ch) s) cs s) \<le> length s"
proof (induction cs arbitrary: s)
  case Nil
  then show ?case by simp
next
  case (Cons a cs)
  have "length (fold (\<lambda>ch s. filter (\<lambda>x. x \<noteq> ch) s) cs (filter (\<lambda>x. x \<noteq> a) s))
      \<le> length (filter (\<lambda>x. x \<noteq> a) s)" by (rule Cons.IH)
  also have "\<dots> \<le> length s" by simp
  finally show ?case by simp
qed

lemma length_remove_invisible: "length (fst (remove_invisible_characters c st)) \<le> length c"
proof -
  have "length (filter (\<lambda>x. \<not> is_control x)
      (fold (\<lambda>ch s. filter (\<lambda>x. x \<noteq> ch) s) invisible_chars c))
    \<le> length (fold (\<lambda>ch s. filter (\<lambda>x. x \<noteq> ch) s) invisible_chars c)" by simp
  also have "\<dots> \<le> length c" by (rule length_fold_filter)
  finally show ?thesis by (simp add: remove_invisible_characters_def Let_def)
qed

lemma length_replace_crlf: "length (replace_crlf s) \<le> length s"
  by (induction s rule: replace_crlf.induct) auto

lemma fix_line_breaks_lines_fst:
  "fst (fix_line_breaks_lines U (l # ls) st) =
     (if (case ls of [] \<Rightarrow> False
          | nxt # _ \<Rightarrow> strip l \<noteq> [] \<and> islower U (last (strip l)) \<and> strip nxt \<noteq> []
                        \<and> islower U (hd (strip nxt)))
      then (strip l @ [32])
             # fst (fix_line_breaks_lines U ls (st\<lparr>line_breaks_fixed := line_breaks_fixed st + 1\<rparr>))
      else strip l # fst (fix_line_breaks_lines U ls st))"
  by (simp add: Let_def split: prod.splits)

lemma fix_lines_shape:
  "list_all2 (\<lambda>l f. f = strip l \<or> f = strip l @ [32]) ls (fst (fix_line_breaks_lines U ls st))"
proof (induction ls arbitrary: st)
  case Nil
  then show ?case by simp
next
  case (Cons l ls)
  note ih = Cons.IH[of st] Cons.IH[of "st\<lparr>line_breaks_fixed := line_breaks_fixed st + 1\<rparr>"]
  show ?case
    unfolding fix_line_breaks_lines_fst using ih
    by (simp del: fix_line_breaks_lines.simps)
qed

lemma line_bound:
  assumes "f = strip l \<or> f = strip l @ [32]"
  shows "length (strip (collapse_tabs (collapse_spaces f))) \<le> length l"
  using assms
proof
  assume "f = strip l"
  then have "length (strip (collapse_tabs (collapse_spaces f))) \<le> length (strip l)"
    using length_strip[of "collapse_tabs (collapse_spaces f)"]
      length_collapse_tabs[of "collapse_spaces f"] length_collapse_spaces[of f] by simp
  with length_strip[of l] show ?thesis by simp
next
  assume f: "f = strip l @ [32]"
  let ?z = "collapse_tabs (collapse_spaces f)"
  from f have "collapse_spaces f \<noteq> []" "last (collapse_spaces f) = 32"
    by (simp_all add: collapse_spaces_Nil last_collapse_spaces)
  then have "?z \<noteq> []" "last ?z = 32"
    by (simp_all add: collapse_tabs_Nil last_collapse_tabs)
  then have "length (strip ?z) < length ?z"
    by (intro length_strip_trailing) (simp_all add: isspace_def)
  also have "\<dots> \<le> length f"
    using length_collapse_tabs[of "collapse_spaces f"] length_collapse_spaces[of f] by simp
  finally have "length (strip ?z) \<le> length (strip l)" using f by simp
  with length_strip[of l] show ?thesis by simp
qed

lemma shape_sum:
  "list_all2 (\<lambda>l f. f = strip l \<or> f = strip l @ [32]) ls fs \<Longrightarrow>
   sum_list (map length (map (\<lambda>f. strip (collapse_tabs (collapse_spaces f))) fs))
     \<le> sum_list (map length ls)"
proof (induction rule: list_all2_induct)
  case Nil
  then show ?case by simp
next
  case (Cons l ls f fs)
  from line_bound[OF Cons.hyps(1)] Cons.IH show ?case by simp
qed

lemma shape_no_newline:
  assumes "list_all2 (\<lambda>l f. f = strip l \<or> f = strip l @ [32]) ls fs"
    and "\<forall>l\<in>set ls. 10 \<notin> set l"
  shows "\<forall>f\<in>set fs. 10 \<notin> set (collapse_tabs (collapse_spaces f))"
proof
  fix f assume "f \<in> set fs"
  then obtain i where i: "i < length fs" "fs ! i = f" by (auto simp: in_set_conv_nth)
  from list_all2_nthD2[OF assms(1) i(1)] i(2)
  have sh: "f = strip (ls ! i) \<or> f = strip (ls ! i) @ [32]" by simp
  from assms(1) i(1) have "i < length ls" by (simp add: list_all2_lengthD)
  with assms(2) have "10 \<notin> set (ls ! i)" by simp
  with set_strip[of "ls ! i"] have "10 \<notin> set (strip (ls ! i))" by blast
  with sh have "10 \<notin> set f" by auto
  with set_collapse_spaces[of f] set_collapse_tabs[of "collapse_spaces f"]
  show "10 \<notin> set (collapse_tabs (collapse_spaces f))" by auto
qed

lemma length_repair_and_standardize:
  "length (fst (standardize_whitespace (fst (fix_line_breaks U c st)) st')) \<le> length c"
proof -
  let ?c1 = "replace_cr (replace_crlf c)"
  let ?ls = "split_nl ?c1"
  let ?fs = "fst (fix_line_breaks_lines U ?ls st)"
  let ?g = "\<lambda>f. collapse_tabs (collapse_spaces f)"
  have sh: "list_all2 (\<lambda>l f. f = strip l \<or> f = strip l @ [32]) ?ls ?fs"
    by (rule fix_lines_shape)
  then have len: "length ?fs = length ?ls" by (simp add: list_all2_lengthD)
  then have ne: "map ?g ?fs \<noteq> []" by auto
  have nl: "\<forall>f\<in>set (map ?g ?fs). 10 \<notin> set f"
    using shape_no_newline[OF sh] split_nl_no_newline[of _ ?c1] by auto
  have c4: "fst (fix_line_breaks U c st) = join_nl ?fs"
    by (simp add: fix_line_breaks_def Let_def split: prod.splits)
  have "collapse_tabs (collapse_spaces (join_nl ?fs)) = join_nl (map ?g ?fs)"
    by (simp add: collapse_spaces_join collapse_tabs_join comp_def)
  then have s3: "join_nl (map strip (split_nl (collapse_tabs (collapse_spaces (join_nl ?fs)))))
      = join_nl (map (\<lambda>f. strip (?g f)) ?fs)"
    using split_join[OF ne nl] by (simp add: comp_def)
  have "length (join_nl (map (\<lambda>f. strip (?g f)) ?fs)) \<le> length (join_nl ?ls)"
    using shape_sum[OF sh] len by (intro join_nl_size) simp_all
  also have "\<dots> = length ?c1" by (simp add: join_split)
  also have "\<dots> \<le> length c" by (simp add: replace_cr_def length_replace_crlf)
  finally have "length (join_nl (map (\<lambda>f. strip (?g f)) ?fs)) \<le> length c" .
  with length_collapse_newlines[of "join_nl (map (\<lambda>f. strip (?g f)) ?fs)"]
  have "length (collapse_newlines (join_nl (map (\<lambda>f. strip (?g f)) ?fs))) \<le> length c"
    by simp
  then show ?thesis
    by (simp add: standardize_whitespace_def Let_def c4 s3)
qed

lemma clean_element_stages:
  "clean_element U lvl e st =
     (if content e = [] \<or> strip (content e) = [] then (None, st)
      else (Some \<lparr>content = fst (stage6 U lvl (content e) st), element_type = element_type e,
                   level = level e, position = position e, line_start = line_start e,
                   line_end = line_end e, parent_id = None, children_ids = []\<rparr>,
            snd (stage6 U lvl (content e) st)))"
  by (simp add: clean_element_def stage6_def stage5_def stage4_def stage3_def stage2_def
      stage1_def Let_def split: prod.splits)

lemma remove_headers_footers_lines_text:
  "fst (remove_headers_footers_lines U ls st) = fst (remove_headers_footers_lines U ls st')"
proof (induction ls arbitrary: st st')
  case Nil
  then show ?case by simp
next
  case (Cons l ls)
  show ?case
    unfolding remove_headers_footers_lines_fst
    using Cons.IH[of "st\<lparr>headers_removed := headers_removed st + 1\<rparr>"
        "st'\<lparr>headers_removed := headers_removed st' + 1\<rparr>"]
      Cons.IH[of "st\<lparr>footers_removed := footers_removed st + 1\<rparr>"
        "st'\<lparr>footers_removed := footers_removed st' + 1\<rparr>"]
      Cons.IH[of st st']
    by (simp del: remove_headers_footers_lines.simps)
qed

lemma stage1_text: "fst (stage1 U lvl c st) = after_headers U lvl c"
  using remove_headers_footers_lines_text[of U "split_nl c" st new_stats]
  by (simp add: after_headers_def stage1_def remove_headers_footers_fst)

lemma clean_element_length:
  assumes "length (nfc U (after_headers U lvl (content e))) \<le> length (after_headers U lvl (content e))"
    and "clean_element U lvl e st = (Some e', st')"
  shows "length (content e') \<le> length (content e)"
proof -
  let ?c0 = "content e"
  from assms(2) have c: "content e' = fst (stage6 U lvl ?c0 st)"
    by (auto simp: clean_element_stages split: if_splits)
  have 1: "length (fst (stage1 U lvl ?c0 st)) \<le> length ?c0"
    by (simp add: stage1_def length_remove_headers_footers)
  have 2: "length (fst (stage2 U lvl ?c0 st)) \<le> length (fst (stage1 U lvl ?c0 st))"
    using assms(1) by (simp add: stage2_def normalize_unicode_def Let_def stage1_text)
  have 3: "length (fst (stage3 U lvl ?c0 st)) \<le> length (fst (stage2 U lvl ?c0 st))"
    unfolding stage3_def by (rule length_remove_invisible)
  have 5: "length (fst (stage5 U lvl ?c0 st)) \<le> length (fst (stage3 U lvl ?c0 st))"
    unfolding stage5_def stage4_def by (rule length_repair_and_standardize)
  have 6: "length (fst (stage6 U lvl ?c0 st)) \<le> length (fst (stage5 U lvl ?c0 st))"
    by (simp add: stage6_def length_remove_redundant_content)
  from 1 2 3 5 6 have "length (fst (stage6 U lvl ?c0 st)) \<le> length ?c0"
    by (meson le_trans)
  with c show ?thesis by simp
qed

lemma normalize_loop_length:
  assumes "\<forall>e\<in>set es. strip (content e) \<noteq> [] \<longrightarrow>
      length (nfc U (after_headers U lvl (content e))) \<le> length (after_headers U lvl (content e))"
  shows "sum_list (map (\<lambda>e. length (content e)) (fst (normalize_loop U detect lvl es st)))
     \<le> sum_list (map (\<lambda>e. length (content e)) es)"
  using assms
proof (induction es arbitrary: st)
  case Nil
  then show ?case by simp
next
  case (Cons e es)
  obtain ce st1 where c: "clean_element U lvl e st = (ce, st1)" by (cases "clean_element U lvl e st")
  obtain cl2 langs2 calls2 st2 where r: "normalize_loop U detect lvl es st1 = (cl2, langs2, calls2, st2)"
    by (cases "normalize_loop U detect lvl es st1") auto
  from Cons.prems have es: "\<forall>e\<in>set es. strip (content e) \<noteq> [] \<longrightarrow>
      length (nfc U (after_headers U lvl (content e))) \<le> length (after_headers U lvl (content e))"
    by simp
  from Cons.IH[OF es, of st1] r have ih: "sum_list (map (\<lambda>e. length (content e)) cl2)
     \<le> sum_list (map (\<lambda>e. length (content e)) es)" by simp
  show ?case
  proof (cases ce)
    case None
    with c r ih show ?thesis by simp
  next
    case (Some e')
    from c Some have "strip (content e) \<noteq> []"
      by (auto simp: clean_element_stages split: if_splits)
    with Cons.prems
    have "length (nfc U (after_headers U lvl (content e))) \<le> length (after_headers U lvl (content e))"
      by simp
    from clean_element_length[OF this c[unfolded Some]]
    have "length (content e') \<le> length (content e)" .
    with c r ih Some show ?thesis by (auto split: option.splits)
  qed
qed

lemma remove_headers_footers_lines_snd:
  "snd (remove_headers_footers_lines U (l # ls) st) =
     (if list_ex (\<lambda>p. re_match p (strip l)) (header_patterns U) then
        snd (remove_headers_footers_lines U ls (st\<lparr>headers_removed := headers_removed st + 1\<rparr>))
      else if list_ex (\<lambda>p. re_search p (strip l)) (footer_patterns U) then
        snd (remove_headers_footers_lines U ls (st\<lparr>footers_removed := footers_removed st + 1\<rparr>))
      else snd (remove_headers_footers_lines U ls st))"
  by (simp add: Let_def split: prod.splits)

lemma fix_line_breaks_lines_snd:
  "snd (fix_line_breaks_lines U (l # ls) st) =
     (if (case ls of [] \<Rightarrow> False
          | nxt # _ \<Rightarrow> strip l \<noteq> [] \<and> islower U (last (strip l)) \<and> strip nxt \<noteq> []
                        \<and> islower U (hd (strip nxt)))
      then snd (fix_line_breaks_lines U ls (st\<lparr>line_breaks_fixed := line_breaks_fixed st + 1\<rparr>))
      else snd (fix_line_breaks_lines U ls st))"
  by (simp add: Let_def split: prod.splits)

lemma remove_headers_footers_lines_frame:
  assumes "\<And>st x. F (st\<lparr>headers_removed := x\<rparr>) = F st"
    and "\<And>st x. F (st\<lparr>footers_removed := x\<rparr>) = F st"
  shows "F (snd (remove_headers_footers_lines U ls st)) = F st"
proof (induction ls arbitrary: st)
  case Nil
  then show ?case by simp
next
  case (Cons l ls)
  show ?case
    unfolding remove_headers_footers_lines_snd
    by (simp add: Cons.IH assms del: remove_headers_footers_lines.simps)
qed

lemma fix_line_breaks_lines_frame:
  assumes "\<And>st x. F (st\<lparr>line_breaks_fixed := x\<rparr>) = F st"
  shows "F (snd (fix_line_breaks_lines U ls st)) = F st"
proof (induction ls arbitrary: st)
  case Nil
  then show ?case by simp
next
  case (Cons l ls)
  show ?case
    unfolding fix_line_breaks_lines_snd
    by (simp add: Cons.IH assms del: fix_line_breaks_lines.simps)
qed

lemma remove_headers_footers_frame:
  assumes "\<And>st x. F (st\<lparr>headers_removed := x\<rparr>) = F st"
    and "\<And>st x. F (st\<lparr>footers_removed := x\<rparr>) = F st"
  shows "F (snd (remove_headers_footers U c st)) = F st"
proof -
  have "snd (remove_headers_footers U c st) = snd (remove_headers_footers_lines U (split_nl c) st)"
    by (simp add: remove_headers_footers_def split: prod.splits)
  then show ?thesis
    by (simp only: remove_headers_footers_lines_frame[of F, OF assms])
qed

lemma fix_line_breaks_frame:
  assumes "\<And>st x. F (st\<lparr>line_breaks_fixed := x\<rparr>) = F st"
  shows "F (snd (fix_line_breaks U c st)) = F st"
proof -
  have "snd (fix_line_breaks U c st) =
      snd (fix_line_breaks_lines U (split_nl (replace_cr (replace_crlf c))) st)"
    by (simp add: fix_line_breaks_def Let_def split: prod.splits)
  then show ?thesis
    by (simp only: fix_line_breaks_lines_frame[of F, OF assms])
qed

lemma normalize_unicode_frame:
  assumes "\<And>st x. F (st\<lparr>unicode_fixed := x\<rparr>) = F st"
  shows "F (snd (normalize_unicode U c st)) = F st"
  by (simp add: normalize_unicode_def Let_def assms)

lemma remove_invisible_frame:
  assumes "\<And>st x. F (st\<lparr>invisible_chars_removed := x\<rparr>) = F st"
  shows "F (snd (remove_invisible_characters c st)) = F st"
  by (simp add: remove_invisible_characters_def Let_def assms)

lemma standardize_whitespace_frame:
  assumes "\<And>st x. F (st\<lparr>whitespace_normalized := x\<rparr>) = F st"
  shows "F (snd (standardize_whitespace c st)) = F st"
  by (simp add: standardize_whitespace_def Let_def assms)

lemma remove_redundant_frame: "snd (remove_redundant_content U c st) = st"
  by (simp add: remove_redundant_content_def)

lemma stage6_frame:
  assumes "\<And>st x. F (st\<lparr>headers_removed := x\<rparr>) = F st"
    and "\<And>st x. F (st\<lparr>footers_removed := x\<rparr>) = F st"
    and "\<And>st x. F (st\<lparr>unicode_fixed := x\<rparr>) = F st"
    and "\<And>st x. F (st\<lparr>invisible_chars_removed := x\<rparr>) = F st"
    and "\<And>st x. F (st\<lparr>line_breaks_fixed := x\<rparr>) = F st"
    and "\<And>st x. F (st\<lparr>whitespace_normalized := x\<rparr>) = F st"
  shows "F (snd (stage6 U lvl c st)) = F st"
proof -
  have 1: "F (snd (stage1 U lvl c st)) = F st"
    by (simp add: stage1_def remove_headers_footers_frame[of F, OF assms(1,2)])
  have 2: "F (snd (stage2 U lvl c st)) = F st"
    by (simp add: stage2_def normalize_unicode_frame[of F, OF assms(3)] 1)
  have 3: "F (snd (stage3 U lvl c st)) = F st"
    by (simp add: stage3_def remove_invisible_frame[of F, OF assms(4)] 2)
  have 4: "F (snd (stage4 U lvl c st)) = F st"
    by (simp add: stage4_def fix_line_breaks_frame[of F, OF assms(5)] 3)
  have 5: "F (snd (stage5 U lvl c st)) = F st"
    by (simp add: stage5_def standardize_whitespace_frame[of F, OF assms(6)] 4)
  show ?thesis
    using 5 by (auto simp: stage6_def remove_redundant_frame)
qed

lemma clean_element_frame:
  assumes "\<And>st x. F (st\<lparr>headers_removed := x\<rparr>) = F st"
    and "\<And>st x. F (st\<lparr>footers_removed := x\<rparr>) = F st"
    and "\<And>st x. F (st\<lparr>unicode_fixed := x\<rparr>) = F st"
    and "\<And>st x. F (st\<lparr>invisible_chars_removed := x\<rparr>) = F st"
    and "\<And>st x. F (st\<lparr>line_breaks_fixed := x\<rparr>) = F st"
    and "\<And>st x. F (st\<lparr>whitespace_normalized := x\<rparr>) = F st"
  shows "F (snd (clean_element U lvl e st)) = F st"
  by (simp add: clean_element_stages stage6_frame[of F, OF assms])

lemma normalize_loop_snd:
  "snd (snd (snd (normalize_loop U detect lvl (e # es) st))) =
     snd (snd (snd (normalize_loop U detect lvl es (snd (clean_element U lvl e st)))))"
  by (simp add: Let_def split: prod.splits option.splits)

lemma normalize_loop_frame:
  assumes "\<And>e st. F (snd (clean_element U lvl e st)) = F st"
  shows "F (snd (snd (snd (normalize_loop U detect lvl es st)))) = F st"
proof (induction es arbitrary: st)
  case Nil
  then show ?case by simp
next
  case (Cons e es)
  show ?case
    unfolding normalize_loop_snd by (simp add: Cons.IH assms del: normalize_loop.simps)
qed

lemma normalize_document_stats:
  "cleaning_stats (normalize_document U detect lvl S) =
     (snd (snd (snd (normalize_loop U detect lvl (elements S)
        (new_stats\<lparr>original_chars := sum_list (map (\<lambda>e. length (content e)) (elements S))\<rparr>)))))
     \<lparr>language_detected := detected_language (normalize_document U detect lvl S),
      cleaned_chars := sum_list (map (\<lambda>e. length (content e))
         (cleaned_elements (normalize_document U detect lvl S)))\<rparr>"
proof -
  obtain cl langs calls st where loop: "normalize_loop U detect lvl (elements S)
      (new_stats\<lparr>original_chars := sum_list (map (\<lambda>e. length (content e)) (elements S))\<rparr>)
    = (cl, langs, calls, st)"
    by (metis prod_cases4)
  show ?thesis
    by (simp add: normalize_run_fields[OF loop] loop)
qed

lemma normalize_document_cleaned:
  "cleaned_elements (normalize_document U detect lvl S) =
     fst (normalize_loop U detect lvl (elements S)
        (new_stats\<lparr>original_chars := sum_list (map (\<lambda>e. length (content e)) (elements S))\<rparr>))"
proof -
  obtain cl langs calls st where loop: "normalize_loop U detect lvl (elements S)
      (new_stats\<lparr>original_chars := sum_list (map (\<lambda>e. length (content e)) (elements S))\<rparr>)
    = (cl, langs, calls, st)"
    by (metis prod_cases4)
  show ?thesis
    by (simp add: normalize_run_fields[OF loop] loop)
qed

lemma normalize_document_chars:
  "original_chars (cleaning_stats (normalize_document U detect lvl S)) =
     sum_list (map (\<lambda>e. length (content e)) (elements S))"
  "cleaned_chars (cleaning_stats (normalize_document U detect lvl S)) =
     sum_list (map (\<lambda>e. length (content e)) (cleaned_elements (normalize_document U detect lvl S)))"
proof -
  have "\<And>e st. original_chars (snd (clean_element U lvl e st)) = original_chars st"
    by (rule clean_element_frame) simp_all
  from normalize_loop_frame[of original_chars U lvl, OF this]
  show "original_chars (cleaning_stats (normalize_document U detect lvl S)) =
     sum_list (map (\<lambda>e. length (content e)) (elements S))"
    by (simp add: normalize_document_stats)
  show "cleaned_chars (cleaning_stats (normalize_document U detect lvl S)) =
     sum_list (map (\<lambda>e. length (content e)) (cleaned_elements (normalize_document U detect lvl S)))"
    by (simp add: normalize_document_stats)
qed

section \<open>Cleaning of the sample texts\<close>

lemma control_sample_headers_footers:
  "remove_headers_footers ucd_sample control_sample st = (control_sample, st)"
  by (simp add: Let_def control_sample_def remove_headers_footers_def norm_defs pattern_defs
      char_defs ucd_sample_def)

lemma control_sample_unicode: "normalize_unicode ucd_sample control_sample st = (control_sample, st)"
  by (simp add: control_sample_def normalize_unicode_def ucd_sample_def)

lemma control_sample_invisible:
  "remove_invisible_characters control_sample st =
     (T ''page 1'', st\<lparr>invisible_chars_removed := invisible_chars_removed st + 1\<rparr>)"
  by (simp add: control_sample_def remove_invisible_characters_def invisible_chars_def
      is_control_def T_def)

lemma page_line_breaks: "fix_line_breaks U (T ''page 1'') st = (T ''page 1'', st)"
  by (simp add: fix_line_breaks_def replace_cr_def char_defs)

lemma page_whitespace: "standardize_whitespace (T ''page 1'') st = (T ''page 1'', st)"
  by (simp add: standardize_whitespace_def char_defs)

lemma page_redundant_free:
  "control_sample \<noteq> [] \<and> strip control_sample \<noteq> [] \<and> T ''page 1'' \<noteq> []
   \<and> strip (T ''page 1'') \<noteq> []"
  by (simp add: control_sample_def char_defs)

lemma control_sample_clean:
  "lvl = MINIMAL \<or> lvl = STANDARD \<Longrightarrow>
   clean_element ucd_sample lvl (paragraph_of control_sample) st =
     (Some (paragraph_of (T ''page 1'')),
      st\<lparr>invisible_chars_removed := invisible_chars_removed st + 1\<rparr>)"
  using page_redundant_free
  by (auto simp: clean_element_def paragraph_of_def control_sample_headers_footers
      control_sample_unicode control_sample_invisible page_line_breaks page_whitespace)

lemma page_headers_footers:
  "remove_headers_footers ucd_sample (T ''page 1'') st =
     ([], st\<lparr>headers_removed := headers_removed st + 1\<rparr>)"
  by (simp add: Let_def remove_headers_footers_def norm_defs pattern_defs char_defs ucd_sample_def)

lemma empty_passes:
  "normalize_unicode ucd_sample [] st = ([], st)"
  "remove_invisible_characters [] st = ([], st)"
  "fix_line_breaks U [] st = ([], st)"
  "standardize_whitespace [] st = ([], st)"
  by (simp_all add: normalize_unicode_def ucd_sample_def remove_invisible_characters_def
      invisible_chars_def fix_line_breaks_def replace_cr_def standardize_whitespace_def strip_def)

lemma page_clean_standard:
  "clean_element ucd_sample STANDARD (paragraph_of (T ''page 1'')) st =
     (Some (paragraph_of []), st\<lparr>headers_removed := headers_removed st + 1\<rparr>)"
  using page_redundant_free
  by (simp add: clean_element_def paragraph_of_def page_headers_footers empty_passes)

lemma page_unicode: "normalize_unicode ucd_sample (T ''page 1'') st = (T ''page 1'', st)"
  by (simp add: normalize_unicode_def ucd_sample_def T_def)

lemma page_invisible: "remove_invisible_characters (T ''page 1'') st = (T ''page 1'', st)"
  by (simp add: remove_invisible_characters_def invisible_chars_def is_control_def T_def)

lemma page_clean_minimal:
  "clean_element ucd_sample MINIMAL (paragraph_of (T ''page 1'')) st =
     (Some (paragraph_of (T ''page 1'')), st)"
  using page_redundant_free
  by (simp add: clean_element_def paragraph_of_def page_unicode page_invisible page_line_breaks
      page_whitespace)

lemma page_redundant: "remove_redundant_content ucd_sample (T ''page 1'') st = (T ''page 1'', st)"
  by (simp add: remove_redundant_content_def skip_line_def special_char_ratio_def char_defs
      ucd_sample_def)

lemma empty_redundant: "remove_redundant_content U [] st = ([], st)"
  by (simp add: remove_redundant_content_def skip_line_def strip_def)

lemma control_sample_clean_aggressive:
  "clean_element ucd_sample AGGRESSIVE (paragraph_of control_sample) st =
     (Some (paragraph_of (T ''page 1'')),
      st\<lparr>invisible_chars_removed := invisible_chars_removed st + 1\<rparr>)"
  using page_redundant_free
  by (simp add: clean_element_def paragraph_of_def control_sample_headers_footers
      control_sample_unicode control_sample_invisible page_line_breaks page_whitespace
      page_redundant)

lemma page_clean_aggressive:
  "clean_element ucd_sample AGGRESSIVE (paragraph_of (T ''page 1'')) st =
     (Some (paragraph_of []), st\<lparr>headers_removed := headers_removed st + 1\<rparr>)"
  using page_redundant_free
  by (simp add: clean_element_def paragraph_of_def page_headers_footers empty_passes
      empty_redundant)

lemma copyright_sample_headers_footers:
  "remove_headers_footers ucd_sample copyright_sample st = (copyright_sample, st)"
  by (simp add: Let_def copyright_sample_def remove_headers_footers_def norm_defs pattern_defs
      char_defs ucd_sample_def)

lemma copyright_sample_unicode:
  "normalize_unicode ucd_sample copyright_sample st = (copyright_sample, st)"
  by (simp add: copyright_sample_def normalize_unicode_def ucd_sample_def)

lemma copyright_sample_invisible:
  "remove_invisible_characters copyright_sample st =
     (T ''copyright'', st\<lparr>invisible_chars_removed := invisible_chars_removed st + 1\<rparr>)"
  by (simp add: copyright_sample_def remove_invisible_characters_def invisible_chars_def
      is_control_def T_def)

lemma copyright_line_breaks: "fix_line_breaks U (T ''copyright'') st = (T ''copyright'', st)"
  by (simp add: fix_line_breaks_def replace_cr_def char_defs)

lemma copyright_whitespace: "standardize_whitespace (T ''copyright'') st = (T ''copyright'', st)"
  by (simp add: standardize_whitespace_def char_defs)

lemma copyright_redundant:
  "remove_redundant_content ucd_sample (T ''copyright'') st = (T ''copyright'', st)"
  by (simp add: remove_redundant_content_def skip_line_def special_char_ratio_def char_defs
      ucd_sample_def)

lemma copyright_not_blank:
  "copyright_sample \<noteq> [] \<and> strip copyright_sample \<noteq> [] \<and> T ''copyright'' \<noteq> []
   \<and> strip (T ''copyright'') \<noteq> []"
  by (simp add: copyright_sample_def char_defs)

lemma copyright_sample_clean:
  "clean_element ucd_sample lvl (paragraph_of copyright_sample) st =
     (Some (paragraph_of (T ''copyright'')),
      st\<lparr>invisible_chars_removed := invisible_chars_removed st + 1\<rparr>)"
  using copyright_not_blank
  by (cases lvl) (simp_all add: clean_element_def paragraph_of_def copyright_sample_headers_footers
      copyright_sample_unicode copyright_sample_invisible copyright_line_breaks
      copyright_whitespace copyright_redundant)

lemma copyright_headers_footers:
  "remove_headers_footers ucd_sample (T ''copyright'') st =
     ([], st\<lparr>footers_removed := footers_removed st + 1\<rparr>)"
  by (simp add: Let_def remove_headers_footers_def norm_defs pattern_defs char_defs ucd_sample_def)

lemma copyright_clean_again:
  "lvl = STANDARD \<or> lvl = AGGRESSIVE \<Longrightarrow>
   clean_element ucd_sample lvl (paragraph_of (T ''copyright'')) st =
     (Some (paragraph_of []), st\<lparr>footers_removed := footers_removed st + 1\<rparr>)"
  using copyright_not_blank
  by (auto simp: clean_element_def paragraph_of_def copyright_headers_footers empty_passes
      empty_redundant)

lemma page_sample_headers_footers:
  "remove_headers_footers ucd_sample page_sample st =
     (T ''hello.'', st\<lparr>headers_removed := headers_removed st + 1\<rparr>)"
  by (simp add: Let_def page_sample_def remove_headers_footers_def norm_defs pattern_defs
      char_defs ucd_sample_def)

lemma hello_passes:
  "normalize_unicode ucd_sample (T ''hello.'') st = (T ''hello.'', st)"
  "remove_invisible_characters (T ''hello.'') st = (T ''hello.'', st)"
  "fix_line_breaks U (T ''hello.'') st = (T ''hello.'', st)"
  "standardize_whitespace (T ''hello.'') st = (T ''hello.'', st)"
  by (simp_all add: normalize_unicode_def ucd_sample_def remove_invisible_characters_def
      invisible_chars_def is_control_def fix_line_breaks_def replace_cr_def
      standardize_whitespace_def char_defs)

lemma page_sample_not_blank:
  "page_sample \<noteq> [] \<and> strip page_sample \<noteq> [] \<and> T ''hello.'' \<noteq> [] \<and> strip (T ''hello.'') \<noteq> []"
  by (simp add: page_sample_def char_defs)

lemma page_sample_clean:
  "clean_element ucd_sample STANDARD (paragraph_of page_sample) st =
     (Some (paragraph_of (T ''hello.'')), st\<lparr>headers_removed := headers_removed st + 1\<rparr>)"
  using page_sample_not_blank
  by (simp add: clean_element_def paragraph_of_def page_sample_headers_footers hello_passes)

lemma control_sample_after_headers:
  "after_headers ucd_sample STANDARD control_sample = control_sample"
  by (simp add: after_headers_def stage1_def control_sample_headers_footers)

section \<open>Bounds of the reduction percentage\<close>

text \<open>
  C9, amended: for every document that normalize returns, the reduction percentage of
  its statistics is at most 100, is 0 whenever \<open>original_chars = cleaned_chars\<close>, and is
  0 when \<open>original_chars = 0\<close>; it is at least 0 whenever, in that run, NFC
  normalization returns no text longer than the text it receives. The texts it receives
  are those of the elements that are not blank, after the header and footer pass.
\<close>

theorem reduction_percentage_bounds:
  "get_reduction_percentage (cleaning_stats (normalize_document U detect lvl S)) \<le> 100
   \<and> (original_chars (cleaning_stats (normalize_document U detect lvl S)) =
        cleaned_chars (cleaning_stats (normalize_document U detect lvl S)) \<longrightarrow>
      get_reduction_percentage (cleaning_stats (normalize_document U detect lvl S)) = 0)
   \<and> (original_chars (cleaning_stats (normalize_document U detect lvl S)) = 0 \<longrightarrow>
      get_reduction_percentage (cleaning_stats (normalize_document U detect lvl S)) = 0)
   \<and> ((\<forall>e\<in>set (elements S). strip (content e) \<noteq> [] \<longrightarrow>
          length (nfc U (after_headers U lvl (content e)))
            \<le> length (after_headers U lvl (content e))) \<longrightarrow>
      0 \<le> get_reduction_percentage (cleaning_stats (normalize_document U detect lvl S)))"
proof -
  let ?st = "cleaning_stats (normalize_document U detect lvl S)"
  have 1: "get_reduction_percentage ?st \<le> 100"
  proof (cases "original_chars ?st = 0")
    case True
    then show ?thesis by (simp add: get_reduction_percentage_def)
  next
    case False
    have "(real (original_chars ?st) - real (cleaned_chars ?st)) / real (original_chars ?st) * 100
        \<le> 1 * 100"
      using False by (intro mult_right_mono) (simp_all add: divide_le_eq_1)
    then show ?thesis using False by (simp add: get_reduction_percentage_def)
  qed
  have 2: "original_chars ?st = cleaned_chars ?st \<longrightarrow> get_reduction_percentage ?st = 0"
    by (simp add: get_reduction_percentage_def)
  have 3: "original_chars ?st = 0 \<longrightarrow> get_reduction_percentage ?st = 0"
    by (simp add: get_reduction_percentage_def)
  have 4: "(\<forall>e\<in>set (elements S). strip (content e) \<noteq> [] \<longrightarrow>
          length (nfc U (after_headers U lvl (content e)))
            \<le> length (after_headers U lvl (content e))) \<longrightarrow>
      0 \<le> get_reduction_percentage ?st"
  proof
    assume n: "\<forall>e\<in>set (elements S). strip (content e) \<noteq> [] \<longrightarrow>
          length (nfc U (after_headers U lvl (content e)))
            \<le> length (after_headers U lvl (content e))"
    have "cleaned_chars ?st \<le> original_chars ?st"
      unfolding normalize_document_chars normalize_document_cleaned
      by (rule normalize_loop_length[OF n])
    then have "0 \<le> (real (original_chars ?st) - real (cleaned_chars ?st))
        / real (original_chars ?st) * 100"
      by (intro mult_nonneg_nonneg divide_nonneg_nonneg) simp_all
    then show "0 \<le> get_reduction_percentage ?st"
      by (simp add: get_reduction_percentage_def)
  qed
  from 1 2 3 4 show ?thesis by (intro conjI)
qed

lemma devanagari_sample_clean:
  "clean_element ucd_sample MINIMAL (paragraph_of devanagari_sample) st =
     (Some (paragraph_of [2325, 2364]), st\<lparr>unicode_fixed := unicode_fixed st + 1\<rparr>)"
  by (simp add: clean_element_def paragraph_of_def devanagari_sample_def normalize_unicode_def
      remove_invisible_characters_def invisible_chars_def is_control_def fix_line_breaks_def
      replace_cr_def standardize_whitespace_def strip_def isspace_def ucd_sample_def Let_def)

text \<open>
  C9, as stated, fails: NFC normalization can lengthen a text. The one character U+0958
  becomes the two characters U+0915 U+093C, so \<open>original_chars\<close> is 1,
  \<open>cleaned_chars\<close> is 2 and the reduction percentage is negative.
\<close>

theorem negative_reduction_counterexample:
  "get_reduction_percentage (cleaning_stats
     (normalize_document ucd_sample (\<lambda>s. None) MINIMAL
        (structure_of [paragraph_of devanagari_sample]))) = - 100"
proof -
  let ?S = "structure_of [paragraph_of devanagari_sample]"
  have loop: "normalize_loop ucd_sample (\<lambda>s. None) MINIMAL (elements ?S)
      (new_stats\<lparr>original_chars := sum_list (map (\<lambda>e. length (content e)) (elements ?S))\<rparr>)
    = ([paragraph_of [2325, 2364]], [], [], new_stats\<lparr>original_chars := 1, unicode_fixed := 1\<rparr>)"
    by (simp add: devanagari_sample_clean strip_def isspace_def)
      (simp add: devanagari_sample_def new_stats_def)
  show ?thesis
    by (simp add: normalize_run_fields(4)[OF loop] get_reduction_percentage_def)
qed

theorem reduction_percentage_bounds_witness:
  "original_chars (cleaning_stats
     (normalize_document ucd_sample (\<lambda>s. None) STANDARD (structure_of [paragraph_of control_sample]))) = 7
   \<and> cleaned_chars (cleaning_stats
     (normalize_document ucd_sample (\<lambda>s. None) STANDARD (structure_of [paragraph_of control_sample]))) = 6
   \<and> 0 \<le> get_reduction_percentage (cleaning_stats
     (normalize_document ucd_sample (\<lambda>s. None) STANDARD (structure_of [paragraph_of control_sample])))
   \<and> get_reduction_percentage (cleaning_stats
     (normalize_document ucd_sample (\<lambda>s. None) STANDARD (structure_of [paragraph_of control_sample]))) \<le> 100
   \<and> original_chars (cleaning_stats
     (normalize_document ucd_sample (\<lambda>s. None) MINIMAL (structure_of [paragraph_of letters_sample]))) = 30
   \<and> cleaned_chars (cleaning_stats
     (normalize_document ucd_sample (\<lambda>s. None) MINIMAL (structure_of [paragraph_of letters_sample]))) = 30
   \<and> get_reduction_percentage (cleaning_stats
     (normalize_document ucd_sample (\<lambda>s. None) MINIMAL (structure_of [paragraph_of letters_sample]))) = 0
   \<and> original_chars (cleaning_stats
     (normalize_document ucd_sample (\<lambda>s. None) MINIMAL (structure_of []))) = 0
   \<and> get_reduction_percentage (cleaning_stats
     (normalize_document ucd_sample (\<lambda>s. None) MINIMAL (structure_of []))) = 0"
proof -
  let ?A = "normalize_document ucd_sample (\<lambda>s. None) STANDARD (structure_of [paragraph_of control_sample])"
  let ?D = "normalize_document ucd_sample (\<lambda>s. None) MINIMAL (structure_of [paragraph_of letters_sample])"
  let ?E = "normalize_document ucd_sample (\<lambda>s. None) MINIMAL (structure_of [])"
  have s: "solid letters_sample" by (simp add: letters_sample_def solid_replicate)
  have c: "clean_element ucd_sample MINIMAL (paragraph_of letters_sample) st =
      (Some (paragraph_of letters_sample), st)" for st
    by (rule solid_clean[OF s])
  have cl: "cleaned_elements ?D = [paragraph_of letters_sample]"
    by (simp add: normalize_document_cleaned c solid_facts(1,2)[OF s])
  have o: "original_chars (cleaning_stats ?D) = 30"
    by (simp add: normalize_document_chars letters_sample_def)
  have k: "cleaned_chars (cleaning_stats ?D) = 30"
    by (simp add: normalize_document_chars cl) (simp add: letters_sample_def)
  have e: "original_chars (cleaning_stats ?E) = 0"
    by (simp add: normalize_document_chars)
  have ca: "cleaned_elements ?A = [paragraph_of (T ''page 1'')]"
    using page_redundant_free by (simp add: normalize_document_cleaned control_sample_clean)
  have oa: "original_chars (cleaning_stats ?A) = 7"
    by (simp add: normalize_document_chars control_sample_def)
  have ka: "cleaned_chars (cleaning_stats ?A) = 6"
    by (simp add: normalize_document_chars ca) (simp add: T_def)
  have n: "\<forall>e\<in>set (elements (structure_of [paragraph_of control_sample])).
      strip (content e) \<noteq> [] \<longrightarrow>
        length (nfc ucd_sample (after_headers ucd_sample STANDARD (content e)))
          \<le> length (after_headers ucd_sample STANDARD (content e))"
    using control_sample_unicode[of new_stats]
    by (simp add: control_sample_after_headers normalize_unicode_def Let_def)
  from reduction_percentage_bounds[of ucd_sample "\<lambda>s. None" STANDARD
      "structure_of [paragraph_of control_sample]"] n
  have 0: "0 \<le> get_reduction_percentage (cleaning_stats ?A)
      \<and> get_reduction_percentage (cleaning_stats ?A) \<le> 100" by simp
  from reduction_percentage_bounds[of ucd_sample "\<lambda>s. None" MINIMAL
      "structure_of [paragraph_of letters_sample]"] o k
  have 1: "get_reduction_percentage (cleaning_stats ?D) = 0" by simp
  from reduction_percentage_bounds[of ucd_sample "\<lambda>s. None" MINIMAL "structure_of []"] e
  have 2: "get_reduction_percentage (cleaning_stats ?E) = 0" by simp
  from oa ka 0 o k 1 e 2 show ?thesis by simp
qed

section \<open>A second run on cleaned elements\<close>

lemma visible_newline_space: "visible 10" "visible 32"
  by (simp_all add: visible_def invisible_chars_def is_control_def)

lemma set_join_nl: "set (join_nl ls) \<subseteq> insert 10 (\<Union> (set ` set ls))"
  by (induction ls rule: join_nl.induct) auto

lemma set_join_nl_line: "l \<in> set ls \<Longrightarrow> set l \<subseteq> set (join_nl ls)"
  by (induction ls rule: join_nl.induct) auto

lemma set_split_nl: "l \<in> set (split_nl s) \<Longrightarrow> set l \<subseteq> set s"
  using set_join_nl_line[of l "split_nl s"] by (simp add: join_split)

lemma set_replace_crlf: "set (replace_crlf s) \<subseteq> set s"
  by (induction s rule: replace_crlf.induct) auto

lemma set_replace_cr: "set (replace_cr s) \<subseteq> insert 10 (set s)"
  by (auto simp: replace_cr_def)

lemma set_collapse_newlines: "set (collapse_newlines s) \<subseteq> set s"
  by (induction s rule: collapse_newlines.induct) auto

lemma remove_headers_footers_lines_subset:
  "set (fst (remove_headers_footers_lines U ls st)) \<subseteq> set ls"
proof (induction ls arbitrary: st)
  case Nil
  then show ?case by simp
next
  case (Cons l ls)
  note ih = Cons.IH[of st]
    Cons.IH[of "st\<lparr>headers_removed := headers_removed st + 1\<rparr>"]
    Cons.IH[of "st\<lparr>footers_removed := footers_removed st + 1\<rparr>"]
  show ?case
    unfolding remove_headers_footers_lines_fst using ih
    by (auto simp del: remove_headers_footers_lines.simps)
qed

lemma remove_redundant_lines_subset:
  "set (remove_redundant_lines U ls acc) \<subseteq> set acc \<union> strip ` set ls"
proof (induction ls arbitrary: acc)
  case Nil
  then show ?case by simp
next
  case (Cons l ls)
  from Cons.IH[of acc] Cons.IH[of "acc @ [strip l]"] show ?case by auto
qed

lemma all_join_nl:
  assumes "Q 10" and "\<forall>l\<in>set ls. \<forall>c\<in>set l. Q c"
  shows "\<forall>c\<in>set (join_nl ls). Q c"
  using set_join_nl[of ls] assms by auto

lemma all_split_nl:
  assumes "\<forall>c\<in>set s. Q c"
  shows "\<forall>l\<in>set (split_nl s). \<forall>c\<in>set l. Q c"
  using set_split_nl[of _ s] assms by blast

lemma all_strip: "\<forall>c\<in>set s. Q c \<Longrightarrow> \<forall>c\<in>set (strip s). Q c"
  using set_strip[of s] by blast

lemma all_remove_headers_footers:
  assumes "Q 10" and "\<forall>c\<in>set s. Q c"
  shows "\<forall>c\<in>set (fst (remove_headers_footers U s st)). Q c"
proof -
  have "\<forall>l\<in>set (fst (remove_headers_footers_lines U (split_nl s) st)). \<forall>c\<in>set l. Q c"
    using remove_headers_footers_lines_subset[of U "split_nl s" st] all_split_nl[OF assms(2)]
    by blast
  from all_join_nl[OF assms(1) this] show ?thesis
    by (simp only: remove_headers_footers_fst)
qed

lemma all_fix_line_breaks:
  assumes "Q 10" and "Q 32" and "\<forall>c\<in>set s. Q c"
  shows "\<forall>c\<in>set (fst (fix_line_breaks U s st)). Q c"
proof -
  let ?c1 = "replace_cr (replace_crlf s)"
  let ?fs = "fst (fix_line_breaks_lines U (split_nl ?c1) st)"
  have c1: "\<forall>c\<in>set ?c1. Q c"
    using set_replace_cr[of "replace_crlf s"] set_replace_crlf[of s] assms(1,3) by auto
  have "\<forall>f\<in>set ?fs. \<forall>c\<in>set f. Q c"
  proof
    fix f assume "f \<in> set ?fs"
    then obtain i where i: "i < length ?fs" "?fs ! i = f" by (auto simp: in_set_conv_nth)
    let ?l = "split_nl ?c1 ! i"
    from list_all2_nthD2[OF fix_lines_shape i(1)] i(2)
    have sh: "f = strip ?l \<or> f = strip ?l @ [32]" by simp
    from fix_lines_shape[of "split_nl ?c1" U st] i(1) have "i < length (split_nl ?c1)"
      by (simp add: list_all2_lengthD)
    then have "?l \<in> set (split_nl ?c1)" by simp
    with all_split_nl[OF c1] have "\<forall>c\<in>set ?l. Q c" by blast
    then have "\<forall>c\<in>set (strip ?l). Q c" by (rule all_strip)
    with sh assms(2) show "\<forall>c\<in>set f. Q c" by auto
  qed
  from all_join_nl[OF assms(1) this] show ?thesis
    by (simp add: fix_line_breaks_def Let_def split: prod.splits)
qed

lemma all_standardize_whitespace:
  assumes "Q 10" and "Q 32" and "\<forall>c\<in>set s. Q c"
  shows "\<forall>c\<in>set (fst (standardize_whitespace s st)). Q c"
proof -
  let ?c2 = "collapse_tabs (collapse_spaces s)"
  have c2: "\<forall>c\<in>set ?c2. Q c"
    using set_collapse_tabs[of "collapse_spaces s"] set_collapse_spaces[of s] assms(2,3) by auto
  have "\<forall>l\<in>set (map strip (split_nl ?c2)). \<forall>c\<in>set l. Q c"
  proof
    fix l assume "l \<in> set (map strip (split_nl ?c2))"
    then obtain l0 where l0: "l0 \<in> set (split_nl ?c2)" "l = strip l0" by auto
    from all_split_nl[OF c2] l0(1) have "\<forall>c\<in>set l0. Q c" by blast
    then show "\<forall>c\<in>set l. Q c" unfolding l0(2) by (rule all_strip)
  qed
  from all_join_nl[OF assms(1) this]
  have "\<forall>c\<in>set (collapse_newlines (join_nl (map strip (split_nl ?c2)))). Q c"
    using set_collapse_newlines[of "join_nl (map strip (split_nl ?c2))"] by blast
  then show ?thesis by (simp add: standardize_whitespace_def Let_def)
qed

lemma all_remove_redundant:
  assumes "Q 10" and "\<forall>c\<in>set s. Q c"
  shows "\<forall>c\<in>set (fst (remove_redundant_content U s st)). Q c"
proof -
  have "\<forall>l\<in>set (remove_redundant_lines U (split_nl s) []). \<forall>c\<in>set l. Q c"
  proof
    fix l assume "l \<in> set (remove_redundant_lines U (split_nl s) [])"
    with remove_redundant_lines_subset[of U "split_nl s" "[]"]
    obtain l0 where l0: "l0 \<in> set (split_nl s)" "l = strip l0" by auto
    from all_split_nl[OF assms(2)] l0(1) have "\<forall>c\<in>set l0. Q c" by blast
    then show "\<forall>c\<in>set l. Q c" unfolding l0(2) by (rule all_strip)
  qed
  from all_join_nl[OF assms(1) this] show ?thesis
    by (simp add: remove_redundant_content_def)
qed

lemma set_fold_filter:
  "set (fold (\<lambda>ch s. filter (\<lambda>x. x \<noteq> ch) s) cs s) = set s - set cs"
  by (induction cs arbitrary: s) auto

lemma visible_after_removal: "\<forall>c\<in>set (fst (remove_invisible_characters s st)). visible c"
  by (auto simp: remove_invisible_characters_def Let_def visible_def set_fold_filter)

lemma stage3_visible: "\<forall>c\<in>set (fst (stage3 U lvl s st)). visible c"
  unfolding stage3_def by (rule visible_after_removal)

lemma stage6_visible: "\<forall>c\<in>set (fst (stage6 U lvl s st)). visible c"
proof -
  have 4: "\<forall>c\<in>set (fst (stage4 U lvl s st)). visible c"
    unfolding stage4_def
    by (rule all_fix_line_breaks[OF visible_newline_space stage3_visible])
  have 5: "\<forall>c\<in>set (fst (stage5 U lvl s st)). visible c"
    unfolding stage5_def
    by (rule all_standardize_whitespace[OF visible_newline_space 4])
  show ?thesis
  proof (cases "lvl = AGGRESSIVE")
    case True
    then show ?thesis
      using all_remove_redundant[OF visible_newline_space(1) 5] by (simp add: stage6_def)
  next
    case False
    then show ?thesis using 5 by (simp add: stage6_def)
  qed
qed

lemma clean_element_visible:
  "clean_element U lvl e st = (Some e', st') \<Longrightarrow> \<forall>c\<in>set (content e'). visible c"
  using stage6_visible[of U lvl "content e" st]
  by (auto simp: clean_element_stages split: if_splits)

lemma normalize_loop_visible:
  "\<forall>e'\<in>set (fst (normalize_loop U detect lvl es st)). \<forall>c\<in>set (content e'). visible c"
proof (induction es arbitrary: st)
  case Nil
  then show ?case by simp
next
  case (Cons e es)
  obtain ce st1 where c: "clean_element U lvl e st = (ce, st1)" by (cases "clean_element U lvl e st")
  obtain cl2 langs2 calls2 st2 where r: "normalize_loop U detect lvl es st1 = (cl2, langs2, calls2, st2)"
    by (cases "normalize_loop U detect lvl es st1") auto
  from Cons.IH[of st1] r have ih: "\<forall>e'\<in>set cl2. \<forall>c\<in>set (content e'). visible c" by simp
  show ?case
  proof (cases ce)
    case None
    with c r ih show ?thesis by simp
  next
    case (Some e')
    from clean_element_visible[OF c[unfolded Some]] have "\<forall>c\<in>set (content e'). visible c" .
    with c r ih Some show ?thesis by (auto split: option.splits)
  qed
qed

lemma visible_keeps_invisible_count:
  assumes "\<forall>s. (\<forall>c\<in>set s. visible c) \<longrightarrow> (\<forall>c\<in>set (nfc U s). visible c)"
    and "\<forall>c\<in>set (content e). visible c"
  shows "invisible_chars_removed (snd (clean_element U lvl e st)) = invisible_chars_removed st"
proof -
  let ?c = "content e"
  have 1: "\<forall>c\<in>set (fst (stage1 U lvl ?c st)). visible c"
    using all_remove_headers_footers[OF visible_newline_space(1) assms(2)] assms(2)
    by (simp add: stage1_def)
  have i1: "invisible_chars_removed (snd (stage1 U lvl ?c st)) = invisible_chars_removed st"
    by (simp add: stage1_def remove_headers_footers_frame[of invisible_chars_removed])
  have 2: "\<forall>c\<in>set (fst (stage2 U lvl ?c st)). visible c"
    using assms(1) 1 by (simp add: stage2_def normalize_unicode_def Let_def)
  have i2: "invisible_chars_removed (snd (stage2 U lvl ?c st)) = invisible_chars_removed st"
    by (simp add: stage2_def normalize_unicode_frame[of invisible_chars_removed] i1)
  from 2 have "\<forall>c\<in>set (fst (stage2 U lvl ?c st)). c \<notin> set invisible_chars \<and> \<not> is_control c"
    by (simp add: visible_def)
  from remove_invisible_id[OF this]
  have i3: "invisible_chars_removed (snd (stage3 U lvl ?c st)) = invisible_chars_removed st"
    by (simp add: stage3_def i2)
  have i4: "invisible_chars_removed (snd (stage4 U lvl ?c st)) = invisible_chars_removed st"
    by (simp add: stage4_def fix_line_breaks_frame[of invisible_chars_removed] i3)
  have i5: "invisible_chars_removed (snd (stage5 U lvl ?c st)) = invisible_chars_removed st"
    by (simp add: stage5_def standardize_whitespace_frame[of invisible_chars_removed] i4)
  have i6: "invisible_chars_removed (snd (stage6 U lvl ?c st)) = invisible_chars_removed st"
    using i5 by (auto simp: stage6_def remove_redundant_frame)
  then show ?thesis by (simp add: clean_element_stages)
qed

lemma normalize_loop_invisible_count:
  assumes "\<forall>s. (\<forall>c\<in>set s. visible c) \<longrightarrow> (\<forall>c\<in>set (nfc U s). visible c)"
    and "\<forall>e\<in>set es. \<forall>c\<in>set (content e). visible c"
  shows "invisible_chars_removed (snd (snd (snd (normalize_loop U detect lvl es st))))
     = invisible_chars_removed st"
  using assms(2)
proof (induction es arbitrary: st)
  case Nil
  then show ?case by simp
next
  case (Cons e es)
  from Cons.prems have e: "\<forall>c\<in>set (content e). visible c"
    and es: "\<forall>e\<in>set es. \<forall>c\<in>set (content e). visible c" by simp_all
  show ?case
    unfolding normalize_loop_snd
    by (simp add: Cons.IH[OF es] visible_keeps_invisible_count[OF assms(1) e]
        del: normalize_loop.simps)
qed

lemma minimal_keeps_header_counts:
  "headers_removed (snd (clean_element U MINIMAL e st)) = headers_removed st"
  "footers_removed (snd (clean_element U MINIMAL e st)) = footers_removed st"
proof -
  have 1: "stage1 U MINIMAL (content e) st = (content e, st)" by (simp add: stage1_def)
  have h5: "headers_removed (snd (stage5 U MINIMAL (content e) st)) = headers_removed st"
    by (simp add: stage5_def stage4_def stage3_def stage2_def 1
        standardize_whitespace_frame[of headers_removed] fix_line_breaks_frame[of headers_removed]
        remove_invisible_frame[of headers_removed] normalize_unicode_frame[of headers_removed])
  have f5: "footers_removed (snd (stage5 U MINIMAL (content e) st)) = footers_removed st"
    by (simp add: stage5_def stage4_def stage3_def stage2_def 1
        standardize_whitespace_frame[of footers_removed] fix_line_breaks_frame[of footers_removed]
        remove_invisible_frame[of footers_removed] normalize_unicode_frame[of footers_removed])
  from h5 show "headers_removed (snd (clean_element U MINIMAL e st)) = headers_removed st"
    by (simp add: clean_element_stages stage6_def)
  from f5 show "footers_removed (snd (clean_element U MINIMAL e st)) = footers_removed st"
    by (simp add: clean_element_stages stage6_def)
qed

lemma fix_line_breaks_lines_text:
  "fst (fix_line_breaks_lines U ls st) = fst (fix_line_breaks_lines U ls st')"
proof (induction ls arbitrary: st st')
  case Nil
  then show ?case by simp
next
  case (Cons l ls)
  show ?case
    unfolding fix_line_breaks_lines_fst
    using Cons.IH[of "st\<lparr>line_breaks_fixed := line_breaks_fixed st + 1\<rparr>"
        "st'\<lparr>line_breaks_fixed := line_breaks_fixed st' + 1\<rparr>"]
      Cons.IH[of st st']
    by (simp del: fix_line_breaks_lines.simps)
qed

lemma fix_line_breaks_text: "fst (fix_line_breaks U c st) = fst (fix_line_breaks U c st')"
  using fix_line_breaks_lines_text[of U "split_nl (replace_cr (replace_crlf c))" st st']
  by (simp add: fix_line_breaks_def Let_def case_prod_beta)

lemma stage6_text: "fst (stage6 U lvl c st) = cleaned_text U lvl c"
proof -
  have 1: "fst (stage1 U lvl c st) = fst (stage1 U lvl c new_stats)"
    by (simp add: stage1_text)
  have 2: "fst (stage2 U lvl c st) = fst (stage2 U lvl c new_stats)"
    by (simp add: stage2_def normalize_unicode_def Let_def 1)
  have 3: "fst (stage3 U lvl c st) = fst (stage3 U lvl c new_stats)"
    by (simp add: stage3_def remove_invisible_characters_def Let_def 2)
  have 4: "fst (stage4 U lvl c st) = fst (stage4 U lvl c new_stats)"
    unfolding stage4_def 3
    by (rule fix_line_breaks_text)
  have 5: "fst (stage5 U lvl c st) = fst (stage5 U lvl c new_stats)"
    by (simp add: stage5_def standardize_whitespace_def Let_def 4)
  have 6: "fst (stage6 U lvl c st) = fst (stage6 U lvl c new_stats)"
    using 5 by (auto simp: stage6_def remove_redundant_content_def)
  then show ?thesis by (simp add: cleaned_text_def)
qed

lemma normalize_loop_kept:
  assumes "e' \<in> set (fst (normalize_loop U detect lvl es st))"
  shows "\<exists>e\<in>set es. strip (content e) \<noteq> [] \<and> strip (cleaned_text U lvl (content e)) \<noteq> []
           \<and> content e' = cleaned_text U lvl (content e)"
  using assms
proof (induction es arbitrary: st)
  case Nil
  then show ?case by simp
next
  case (Cons e es)
  obtain ce st1 where c: "clean_element U lvl e st = (ce, st1)" by (cases "clean_element U lvl e st")
  obtain cl2 langs2 calls2 st2 where r: "normalize_loop U detect lvl es st1 = (cl2, langs2, calls2, st2)"
    by (cases "normalize_loop U detect lvl es st1") auto
  have ih: "e' \<in> set cl2 \<Longrightarrow> ?case"
  proof -
    assume "e' \<in> set cl2"
    with r have "e' \<in> set (fst (normalize_loop U detect lvl es st1))" by simp
    from Cons.IH[OF this] show ?case by auto
  qed
  show ?case
  proof (cases ce)
    case None
    with c r Cons.prems have "e' \<in> set cl2" by simp
    then show ?thesis by (rule ih)
  next
    case (Some x)
    from c Some have ne: "strip (content e) \<noteq> []"
      and x: "content x = cleaned_text U lvl (content e)"
      by (auto simp: clean_element_stages stage6_text split: if_splits)
    show ?thesis
    proof (cases "e' \<in> set cl2")
      case True
      then show ?thesis by (rule ih)
    next
      case False
      with c r Some Cons.prems have "e' = x \<and> strip (content x) \<noteq> []"
        by (auto split: if_splits option.splits)
      with ne x show ?thesis by auto
    qed
  qed
qed

lemma remove_headers_footers_lines_unmarked:
  "\<forall>l\<in>set (fst (remove_headers_footers_lines U ls st)). \<not> marked_line U l"
proof (induction ls arbitrary: st)
  case Nil
  then show ?case by simp
next
  case (Cons l ls)
  note ih = Cons.IH[of st]
    Cons.IH[of "st\<lparr>headers_removed := headers_removed st + 1\<rparr>"]
    Cons.IH[of "st\<lparr>footers_removed := footers_removed st + 1\<rparr>"]
  show ?case
    unfolding remove_headers_footers_lines_fst using ih
    by (auto simp: marked_line_def simp del: remove_headers_footers_lines.simps)
qed

lemma remove_headers_footers_lines_id:
  "\<forall>l\<in>set ls. \<not> marked_line U l \<Longrightarrow> remove_headers_footers_lines U ls st = (ls, st)"
  by (induction ls arbitrary: st) (simp_all add: marked_line_def)

lemma empty_line_unmarked: "\<not> marked_line U []"
  by (simp add: marked_line_def norm_defs pattern_defs char_defs)

lemma remove_headers_footers_again:
  "remove_headers_footers U (fst (remove_headers_footers U c st)) st' =
     (fst (remove_headers_footers U c st), st')"
proof -
  let ?kept = "fst (remove_headers_footers_lines U (split_nl c) st)"
  have c1: "fst (remove_headers_footers U c st) = join_nl ?kept"
    by (rule remove_headers_footers_fst)
  have um: "\<forall>l\<in>set ?kept. \<not> marked_line U l"
    by (rule remove_headers_footers_lines_unmarked)
  have "remove_headers_footers U (join_nl ?kept) st' = (join_nl ?kept, st')"
  proof (cases "?kept = []")
    case True
    have "remove_headers_footers_lines U [[]] st' = ([[]], st')"
      by (rule remove_headers_footers_lines_id) (simp add: empty_line_unmarked)
    then have "remove_headers_footers U [] st' = ([], st')"
      by (simp add: remove_headers_footers_def del: remove_headers_footers_lines.simps)
    with True show ?thesis by simp
  next
    case False
    have nl: "\<forall>l\<in>set ?kept. 10 \<notin> set l"
      using remove_headers_footers_lines_subset[of U "split_nl c" st] split_nl_no_newline[of _ c]
      by blast
    have sj: "split_nl (join_nl ?kept) = ?kept"
      by (rule split_join[OF False nl])
    show ?thesis
      unfolding remove_headers_footers_def sj remove_headers_footers_lines_id[OF um, of st']
      by simp
  qed
  then show ?thesis unfolding c1 .
qed

lemma after_headers_again:
  "stage1 U lvl (after_headers U lvl c) st = (after_headers U lvl c, st)"
  by (simp add: after_headers_def stage1_def remove_headers_footers_again)

lemma settled_keeps_header_counts:
  assumes "content e = after_headers U lvl c"
  shows "headers_removed (snd (clean_element U lvl e st)) = headers_removed st"
    and "footers_removed (snd (clean_element U lvl e st)) = footers_removed st"
proof -
  have 1: "stage1 U lvl (content e) st = (content e, st)"
    unfolding assms by (rule after_headers_again)
  have h5: "headers_removed (snd (stage5 U lvl (content e) st)) = headers_removed st"
    by (simp add: stage5_def stage4_def stage3_def stage2_def 1
        standardize_whitespace_frame[of headers_removed] fix_line_breaks_frame[of headers_removed]
        remove_invisible_frame[of headers_removed] normalize_unicode_frame[of headers_removed])
  have f5: "footers_removed (snd (stage5 U lvl (content e) st)) = footers_removed st"
    by (simp add: stage5_def stage4_def stage3_def stage2_def 1
        standardize_whitespace_frame[of footers_removed] fix_line_breaks_frame[of footers_removed]
        remove_invisible_frame[of footers_removed] normalize_unicode_frame[of footers_removed])
  from h5 show "headers_removed (snd (clean_element U lvl e st)) = headers_removed st"
    by (auto simp: clean_element_stages stage6_def remove_redundant_frame)
  from f5 show "footers_removed (snd (clean_element U lvl e st)) = footers_removed st"
    by (auto simp: clean_element_stages stage6_def remove_redundant_frame)
qed

lemma normalize_loop_header_counts:
  assumes "\<forall>e\<in>set es. \<exists>c. content e = after_headers U lvl c"
  shows "headers_removed (snd (snd (snd (normalize_loop U detect lvl es st)))) = headers_removed st
    \<and> footers_removed (snd (snd (snd (normalize_loop U detect lvl es st)))) = footers_removed st"
  using assms
proof (induction es arbitrary: st)
  case Nil
  then show ?case by simp
next
  case (Cons e es)
  from Cons.prems obtain c where e: "content e = after_headers U lvl c" by auto
  from Cons.prems have es: "\<forall>e\<in>set es. \<exists>c. content e = after_headers U lvl c" by simp
  show ?case
    unfolding normalize_loop_snd
    by (simp add: Cons.IH[OF es] settled_keeps_header_counts[OF e]
        del: normalize_loop.simps)
qed

lemma second_run_settled:
  assumes "\<forall>e\<in>set (elements S).
      strip (content e) \<noteq> [] \<and> strip (cleaned_text U lvl (content e)) \<noteq> [] \<longrightarrow>
        cleaned_text U lvl (content e) = after_headers U lvl (content e)"
  shows "headers_removed (cleaning_stats
           (normalize_document U detect lvl (rewrap (normalize_document U detect lvl S)))) = 0
       \<and> footers_removed (cleaning_stats
           (normalize_document U detect lvl (rewrap (normalize_document U detect lvl S)))) = 0"
proof -
  let ?D = "normalize_document U detect lvl S"
  have "\<forall>e'\<in>set (elements (rewrap ?D)). \<exists>c. content e' = after_headers U lvl c"
  proof
    fix e' assume "e' \<in> set (elements (rewrap ?D))"
    then have "e' \<in> set (fst (normalize_loop U detect lvl (elements S)
        (new_stats\<lparr>original_chars := sum_list (map (\<lambda>e. length (content e)) (elements S))\<rparr>)))"
      by (simp add: rewrap_def normalize_document_cleaned)
    from normalize_loop_kept[OF this] obtain e where "e \<in> set (elements S)"
      "strip (content e) \<noteq> []" "strip (cleaned_text U lvl (content e)) \<noteq> []"
      "content e' = cleaned_text U lvl (content e)" by blast
    with assms have "content e' = after_headers U lvl (content e)" by simp
    then show "\<exists>c. content e' = after_headers U lvl c" ..
  qed
  from normalize_loop_header_counts[OF this] show ?thesis
    by (simp add: normalize_document_stats new_stats_def)
qed

text \<open>
  C8, amended: for every structure and cleaning level, the second run on the cleaned
  elements of the first has \<open>invisible_chars_removed = 0\<close> when NFC normalization
  introduces no invisible or control character into a text that has none. It has
  \<open>headers_removed = 0\<close> and \<open>footers_removed = 0\<close> at the Minimal level, where the
  header and footer pass does not run, and at every level when no pass after the header
  and footer pass changed the text of an element that the first run kept.
\<close>

theorem second_run_counters:
  "((\<forall>s. (\<forall>c\<in>set s. visible c) \<longrightarrow> (\<forall>c\<in>set (nfc U s). visible c)) \<longrightarrow>
       invisible_chars_removed (cleaning_stats
           (normalize_document U detect lvl (rewrap (normalize_document U detect lvl S)))) = 0)
    \<and> (lvl = MINIMAL \<longrightarrow>
         headers_removed (cleaning_stats
           (normalize_document U detect lvl (rewrap (normalize_document U detect lvl S)))) = 0
       \<and> footers_removed (cleaning_stats
           (normalize_document U detect lvl (rewrap (normalize_document U detect lvl S)))) = 0)
    \<and> ((\<forall>e\<in>set (elements S).
           strip (content e) \<noteq> [] \<and> strip (cleaned_text U lvl (content e)) \<noteq> [] \<longrightarrow>
             cleaned_text U lvl (content e) = after_headers U lvl (content e)) \<longrightarrow>
         headers_removed (cleaning_stats
           (normalize_document U detect lvl (rewrap (normalize_document U detect lvl S)))) = 0
       \<and> footers_removed (cleaning_stats
           (normalize_document U detect lvl (rewrap (normalize_document U detect lvl S)))) = 0)"
proof -
  let ?D = "normalize_document U detect lvl S"
  have v: "\<forall>e\<in>set (elements (rewrap ?D)). \<forall>c\<in>set (content e). visible c"
    using normalize_loop_visible[of U detect lvl "elements S"]
    by (simp add: rewrap_def normalize_document_cleaned)
  have 1: "(\<forall>s. (\<forall>c\<in>set s. visible c) \<longrightarrow> (\<forall>c\<in>set (nfc U s). visible c)) \<longrightarrow>
      invisible_chars_removed (cleaning_stats (normalize_document U detect lvl (rewrap ?D))) = 0"
  proof
    assume n: "\<forall>s. (\<forall>c\<in>set s. visible c) \<longrightarrow> (\<forall>c\<in>set (nfc U s). visible c)"
    show "invisible_chars_removed (cleaning_stats (normalize_document U detect lvl (rewrap ?D))) = 0"
      by (simp add: normalize_document_stats normalize_loop_invisible_count[OF n v] new_stats_def)
  qed
  have 2: "lvl = MINIMAL \<longrightarrow>
         headers_removed (cleaning_stats (normalize_document U detect lvl (rewrap ?D))) = 0
       \<and> footers_removed (cleaning_stats (normalize_document U detect lvl (rewrap ?D))) = 0"
  proof
    assume m: "lvl = MINIMAL"
    have h: "headers_removed (snd (snd (snd (normalize_loop U detect MINIMAL es st))))
        = headers_removed st" for es st
      by (rule normalize_loop_frame) (rule minimal_keeps_header_counts)
    have f: "footers_removed (snd (snd (snd (normalize_loop U detect MINIMAL es st))))
        = footers_removed st" for es st
      by (rule normalize_loop_frame) (rule minimal_keeps_header_counts)
    show "headers_removed (cleaning_stats (normalize_document U detect lvl (rewrap ?D))) = 0
       \<and> footers_removed (cleaning_stats (normalize_document U detect lvl (rewrap ?D))) = 0"
      unfolding m by (simp add: normalize_document_stats h f new_stats_def)
  qed
  have 3: "(\<forall>e\<in>set (elements S).
           strip (content e) \<noteq> [] \<and> strip (cleaned_text U lvl (content e)) \<noteq> [] \<longrightarrow>
             cleaned_text U lvl (content e) = after_headers U lvl (content e)) \<longrightarrow>
         headers_removed (cleaning_stats (normalize_document U detect lvl (rewrap ?D))) = 0
       \<and> footers_removed (cleaning_stats (normalize_document U detect lvl (rewrap ?D))) = 0"
    by (rule impI) (rule second_run_settled)
  from 1 2 3 show ?thesis by (intro conjI)
qed

lemma control_sample_first_run:
  "lvl = MINIMAL \<or> lvl = STANDARD \<Longrightarrow>
   rewrap (normalize_document ucd_sample (\<lambda>s. None) lvl (structure_of [paragraph_of control_sample]))
     = structure_of [paragraph_of (T ''page 1'')]"
  using page_redundant_free
  by (simp add: rewrap_def structure_of_def normalize_document_cleaned control_sample_clean)

lemma control_sample_first_run_aggressive:
  "rewrap (normalize_document ucd_sample (\<lambda>s. None) AGGRESSIVE
      (structure_of [paragraph_of control_sample]))
     = structure_of [paragraph_of (T ''page 1'')]"
  using page_redundant_free
  by (simp add: rewrap_def structure_of_def normalize_document_cleaned
      control_sample_clean_aggressive)

lemma copyright_sample_first_run:
  "rewrap (normalize_document ucd_sample (\<lambda>s. None) lvl (structure_of [paragraph_of copyright_sample]))
     = structure_of [paragraph_of (T ''copyright'')]"
  using copyright_not_blank
  by (simp add: rewrap_def structure_of_def normalize_document_cleaned copyright_sample_clean)

lemma page_sample_texts:
  "after_headers ucd_sample STANDARD page_sample = T ''hello.''"
  "cleaned_text ucd_sample STANDARD page_sample = T ''hello.''"
proof -
  show "after_headers ucd_sample STANDARD page_sample = T ''hello.''"
    by (simp add: after_headers_def stage1_def page_sample_headers_footers)
  have "fst (stage6 ucd_sample STANDARD page_sample new_stats) = T ''hello.''"
    using page_sample_not_blank page_sample_clean[of new_stats]
    by (simp add: clean_element_stages paragraph_of_def)
  then show "cleaned_text ucd_sample STANDARD page_sample = T ''hello.''"
    by (simp add: cleaned_text_def)
qed

text \<open>
  C8, as stated, fails at the Standard and at the Aggressive level, for headers and for
  footers. The first run removes the control character of \<open>pa\<close>, U+0001, \<open>ge 1\<close>
  after the header and footer test, which leaves the line \<open>page 1\<close>; the second run
  removes that line as a header. In the same way \<open>copy\<close>, U+0001, \<open>right\<close> becomes
  \<open>copyright\<close>, which the second run removes as a footer.
\<close>

theorem second_run_removals_counterexample:
  "headers_removed (cleaning_stats
     (normalize_document ucd_sample (\<lambda>s. None) STANDARD
        (rewrap (normalize_document ucd_sample (\<lambda>s. None) STANDARD
           (structure_of [paragraph_of control_sample]))))) = 1
   \<and> headers_removed (cleaning_stats
     (normalize_document ucd_sample (\<lambda>s. None) AGGRESSIVE
        (rewrap (normalize_document ucd_sample (\<lambda>s. None) AGGRESSIVE
           (structure_of [paragraph_of control_sample]))))) = 1
   \<and> footers_removed (cleaning_stats
     (normalize_document ucd_sample (\<lambda>s. None) STANDARD
        (rewrap (normalize_document ucd_sample (\<lambda>s. None) STANDARD
           (structure_of [paragraph_of copyright_sample]))))) = 1
   \<and> footers_removed (cleaning_stats
     (normalize_document ucd_sample (\<lambda>s. None) AGGRESSIVE
        (rewrap (normalize_document ucd_sample (\<lambda>s. None) AGGRESSIVE
           (structure_of [paragraph_of copyright_sample]))))) = 1"
proof -
  have 1: "headers_removed (cleaning_stats
     (normalize_document ucd_sample (\<lambda>s. None) STANDARD
        (rewrap (normalize_document ucd_sample (\<lambda>s. None) STANDARD
           (structure_of [paragraph_of control_sample]))))) = 1"
    by (simp add: control_sample_first_run normalize_document_stats page_clean_standard
        new_stats_def strip_def)
  have 2: "headers_removed (cleaning_stats
     (normalize_document ucd_sample (\<lambda>s. None) AGGRESSIVE
        (rewrap (normalize_document ucd_sample (\<lambda>s. None) AGGRESSIVE
           (structure_of [paragraph_of control_sample]))))) = 1"
    by (simp add: control_sample_first_run_aggressive normalize_document_stats
        page_clean_aggressive new_stats_def strip_def)
  have 3: "footers_removed (cleaning_stats
     (normalize_document ucd_sample (\<lambda>s. None) STANDARD
        (rewrap (normalize_document ucd_sample (\<lambda>s. None) STANDARD
           (structure_of [paragraph_of copyright_sample]))))) = 1"
    by (simp add: copyright_sample_first_run normalize_document_stats copyright_clean_again
        new_stats_def strip_def)
  have 4: "footers_removed (cleaning_stats
     (normalize_document ucd_sample (\<lambda>s. None) AGGRESSIVE
        (rewrap (normalize_document ucd_sample (\<lambda>s. None) AGGRESSIVE
           (structure_of [paragraph_of copyright_sample]))))) = 1"
    by (simp add: copyright_sample_first_run normalize_document_stats copyright_clean_again
        new_stats_def strip_def)
  from 1 2 3 4 show ?thesis by (intro conjI)
qed

lemma nfc_sample_visible:
  "\<forall>s. (\<forall>c\<in>set s. visible c) \<longrightarrow> (\<forall>c\<in>set (nfc ucd_sample s). visible c)"
  by (auto simp: ucd_sample_def visible_def invisible_chars_def is_control_def split: if_splits)

theorem second_run_counters_witness:
  "invisible_chars_removed (cleaning_stats
     (normalize_document ucd_sample (\<lambda>s. None) MINIMAL
        (structure_of [paragraph_of control_sample]))) = 1
   \<and> invisible_chars_removed (cleaning_stats
     (normalize_document ucd_sample (\<lambda>s. None) MINIMAL
        (rewrap (normalize_document ucd_sample (\<lambda>s. None) MINIMAL
           (structure_of [paragraph_of control_sample]))))) = 0
   \<and> headers_removed (cleaning_stats
     (normalize_document ucd_sample (\<lambda>s. None) MINIMAL
        (rewrap (normalize_document ucd_sample (\<lambda>s. None) MINIMAL
           (structure_of [paragraph_of control_sample]))))) = 0
   \<and> footers_removed (cleaning_stats
     (normalize_document ucd_sample (\<lambda>s. None) MINIMAL
        (rewrap (normalize_document ucd_sample (\<lambda>s. None) MINIMAL
           (structure_of [paragraph_of control_sample]))))) = 0
   \<and> headers_removed (cleaning_stats
     (normalize_document ucd_sample (\<lambda>s. None) STANDARD
        (structure_of [paragraph_of page_sample]))) = 1
   \<and> headers_removed (cleaning_stats
     (normalize_document ucd_sample (\<lambda>s. None) STANDARD
        (rewrap (normalize_document ucd_sample (\<lambda>s. None) STANDARD
           (structure_of [paragraph_of page_sample]))))) = 0
   \<and> footers_removed (cleaning_stats
     (normalize_document ucd_sample (\<lambda>s. None) STANDARD
        (rewrap (normalize_document ucd_sample (\<lambda>s. None) STANDARD
           (structure_of [paragraph_of page_sample]))))) = 0"
proof -
  have 1: "invisible_chars_removed (cleaning_stats
     (normalize_document ucd_sample (\<lambda>s. None) MINIMAL
        (structure_of [paragraph_of control_sample]))) = 1"
    using page_redundant_free
    by (simp add: normalize_document_stats control_sample_clean new_stats_def)
  have 2: "headers_removed (cleaning_stats
     (normalize_document ucd_sample (\<lambda>s. None) STANDARD
        (structure_of [paragraph_of page_sample]))) = 1"
    using page_sample_not_blank
    by (simp add: normalize_document_stats page_sample_clean new_stats_def)
  have s: "\<forall>e\<in>set (elements (structure_of [paragraph_of page_sample])).
      strip (content e) \<noteq> [] \<and> strip (cleaned_text ucd_sample STANDARD (content e)) \<noteq> [] \<longrightarrow>
        cleaned_text ucd_sample STANDARD (content e) = after_headers ucd_sample STANDARD (content e)"
    by (simp add: page_sample_texts)
  from second_run_counters[of ucd_sample "\<lambda>s. None" MINIMAL
      "structure_of [paragraph_of control_sample]"] nfc_sample_visible
  have 3: "invisible_chars_removed (cleaning_stats
     (normalize_document ucd_sample (\<lambda>s. None) MINIMAL
        (rewrap (normalize_document ucd_sample (\<lambda>s. None) MINIMAL
           (structure_of [paragraph_of control_sample]))))) = 0
   \<and> headers_removed (cleaning_stats
     (normalize_document ucd_sample (\<lambda>s. None) MINIMAL
        (rewrap (normalize_document ucd_sample (\<lambda>s. None) MINIMAL
           (structure_of [paragraph_of control_sample]))))) = 0
   \<and> footers_removed (cleaning_stats
     (normalize_document ucd_sample (\<lambda>s. None) MINIMAL
        (rewrap (normalize_document ucd_sample (\<lambda>s. None) MINIMAL
           (structure_of [paragraph_of control_sample]))))) = 0"
    by blast
  from second_run_counters[of ucd_sample "\<lambda>s. None" STANDARD
      "structure_of [paragraph_of page_sample]"] s
  have 4: "headers_removed (cleaning_stats
     (normalize_document ucd_sample (\<lambda>s. None) STANDARD
        (rewrap (normalize_document ucd_sample (\<lambda>s. None) STANDARD
           (structure_of [paragraph_of page_sample]))))) = 0
   \<and> footers_removed (cleaning_stats
     (normalize_document ucd_sample (\<lambda>s. None) STANDARD
        (rewrap (normalize_document ucd_sample (\<lambda>s. None) STANDARD
           (structure_of [paragraph_of page_sample]))))) = 0"
    by blast
  from 1 2 3 4 show ?thesis by simp
qed

section \<open>The matcher, code blocks in general, and a text on which the parser does not return\<close>

lemma conc_empty [simp]: "conc {} B = {}" "conc A {} = {}"
  by (simp_all add: conc_def)

lemma conc_unit [simp]: "conc {[]} B = B"
  by (auto simp: conc_def)

lemma nullable_iff: "nullable r \<longleftrightarrow> [] \<in> lang r"
  by (induction r) (auto simp: conc_def split: option.splits)

lemma lang_alt: "lang (alt r s) = lang r \<union> lang s"
  by (induction r s rule: alt.induct) auto

lemma lang_seq: "lang (seq r s) = conc (lang r) (lang s)"
  by (induction r s rule: seq.induct) auto

lemma tail_conc:
  "{s. c # s \<in> conc A B} = conc {s. c # s \<in> A} B \<union> (if [] \<in> A then {s. c # s \<in> B} else {})"
proof (intro set_eqI iffI)
  fix s assume "s \<in> {s. c # s \<in> conc A B}"
  then obtain a b where ab: "c # s = a @ b" "a \<in> A" "b \<in> B" by (auto simp: conc_def)
  show "s \<in> conc {s. c # s \<in> A} B \<union> (if [] \<in> A then {s. c # s \<in> B} else {})"
  proof (cases a)
    case Nil
    with ab show ?thesis by auto
  next
    case (Cons x a')
    with ab have "s = a' @ b" "c # a' \<in> A" by auto
    with ab(3) show ?thesis by (auto simp: conc_def)
  qed
next
  fix s assume "s \<in> conc {s. c # s \<in> A} B \<union> (if [] \<in> A then {s. c # s \<in> B} else {})"
  then show "s \<in> {s. c # s \<in> conc A B}"
  proof
    assume "s \<in> conc {s. c # s \<in> A} B"
    then obtain a b where "s = a @ b" "c # a \<in> A" "b \<in> B" by (auto simp: conc_def)
    then have "c # s = (c # a) @ b \<and> c # a \<in> A \<and> b \<in> B" by simp
    then show ?thesis unfolding conc_def by blast
  next
    assume a: "s \<in> (if [] \<in> A then {s. c # s \<in> B} else {})"
    then have "[] \<in> A" "c # s \<in> B" by (auto split: if_splits)
    then have "c # s = [] @ (c # s) \<and> [] \<in> A \<and> c # s \<in> B" by simp
    then show ?thesis unfolding conc_def by blast
  qed
qed

lemma lang_deriv: "lang (deriv c r) = {s. c # s \<in> lang r}"
proof (induction r)
  case Zero
  then show ?case by simp
next
  case One
  then show ?case by simp
next
  case (Atom p)
  then show ?case by auto
next
  case (Rep p lo hi)
  then show ?case by (cases hi) (auto split: option.splits)
next
  case (Alt r1 r2)
  then show ?case by (auto simp: lang_alt)
next
  case (Seq r1 r2)
  then show ?case
    by (simp add: lang_alt lang_seq tail_conc nullable_iff)
qed

lemma accepts_iff: "accepts r s \<longleftrightarrow> s \<in> lang r"
  by (induction s arbitrary: r) (simp_all add: nullable_iff lang_deriv)

lemma strip_prefix: "dropWhile isspace x = strip x @ rev (takeWhile isspace (rev (dropWhile isspace x)))"
proof -
  have "rev (takeWhile isspace (rev (dropWhile isspace x)) @ dropWhile isspace (rev (dropWhile isspace x)))
      = rev (rev (dropWhile isspace x))"
    by (simp only: takeWhile_dropWhile_id)
  then show ?thesis by (simp only: rev_append rev_rev_ident strip_def)
qed

lemma strip_hd: "strip x \<noteq> [] \<Longrightarrow> \<not> isspace (hd (strip x))"
proof -
  assume ne: "strip x \<noteq> []"
  with strip_prefix[of x] have d: "dropWhile isspace x \<noteq> []"
    by (metis append_is_Nil_conv)
  from ne strip_prefix[of x] have "hd (dropWhile isspace x) = hd (strip x)"
    by (metis hd_append2)
  with d show ?thesis by (metis hd_dropWhile)
qed

lemma strip_last: "strip x \<noteq> [] \<Longrightarrow> \<not> isspace (last (strip x))"
proof -
  assume ne: "strip x \<noteq> []"
  then have "dropWhile isspace (rev (dropWhile isspace x)) \<noteq> []" by (simp add: strip_def)
  then have "\<not> isspace (hd (dropWhile isspace (rev (dropWhile isspace x))))"
    by (rule hd_dropWhile)
  with ne show ?thesis by (simp add: strip_def last_rev)
qed

lemma indent_pattern_needs_space:
  assumes "s \<in> lang (Seq (Rep isspace 4 None) r)"
  shows "s \<noteq> [] \<and> isspace (hd s)"
proof -
  from assms obtain a b where ab: "s = a @ b" "\<forall>c\<in>set a. isspace c" "4 \<le> length a"
    by (auto simp: conc_def)
  from ab(3) have "a \<noteq> []" by auto
  with ab show ?thesis by (cases a) auto
qed

lemma indent_pattern_no_match:
  "\<not> re_match (Seq (Rep isspace 4 None) (Rep dot 0 None), True) (strip x)"
proof
  assume "re_match (Seq (Rep isspace 4 None) (Rep dot 0 None), True) (strip x)"
  then have "strip x \<in> lang (Seq (Rep isspace 4 None) (Rep dot 0 None))
      \<or> (strip x \<noteq> [] \<and> last (strip x) = 10)"
    by (auto simp: re_match_def accepts_iff)
  then show False
  proof
    assume "strip x \<in> lang (Seq (Rep isspace 4 None) (Rep dot 0 None))"
    from indent_pattern_needs_space[OF this] strip_hd[of x] show False by simp
  next
    assume "strip x \<noteq> [] \<and> last (strip x) = 10"
    with strip_last[of x] show False by (simp add: isspace_def)
  qed
qed

lemma fence_pattern_needs_newline:
  assumes "s \<in> lang (Seq r1 (Seq r2 (Seq (Atom (\<lambda>c. c = 10)) r3)))"
  shows "10 \<in> set s"
  using assms by (auto simp: conc_def)

lemma fence_pattern_no_match:
  assumes "10 \<notin> set s"
  shows "\<not> re_match (Seq r1 (Seq r2 (Seq (Atom (\<lambda>c. c = 10)) r3)), True) s"
proof
  assume "re_match (Seq r1 (Seq r2 (Seq (Atom (\<lambda>c. c = 10)) r3)), True) s"
  then have "s \<in> lang (Seq r1 (Seq r2 (Seq (Atom (\<lambda>c. c = 10)) r3)))
      \<or> (s \<noteq> [] \<and> last s = 10)"
    by (auto simp: re_match_def accepts_iff)
  then show False
  proof
    assume "s \<in> lang (Seq r1 (Seq r2 (Seq (Atom (\<lambda>c. c = 10)) r3)))"
    from fence_pattern_needs_newline[OF this] assms show False by simp
  next
    assume "s \<noteq> [] \<and> last s = 10"
    then have "10 \<in> set s" by (metis last_in_set)
    with assms show False by simp
  qed
qed

lemma code_patterns_no_match:
  assumes "10 \<notin> set l"
  shows "\<not> list_ex (\<lambda>p. re_match p (strip l)) (code_patterns U)"
proof -
  from assms set_strip[of l] have "10 \<notin> set (strip l)" by blast
  from fence_pattern_no_match[OF this] indent_pattern_no_match[of l]
  show ?thesis by (simp add: code_patterns_def)
qed

lemma identify_element_no_code_block:
  assumes "identify_element U lines i fmt = Inr (ty, lv, cl, consumed)"
    and "\<forall>l\<in>set lines. 10 \<notin> set l"
  shows "ty \<noteq> CODE_BLOCK"
proof (cases "i < length lines")
  case False
  with assms(1) show ?thesis by (simp add: identify_element_def)
next
  case True
  with assms(2) have "10 \<notin> set (lines ! i)" by simp
  from code_patterns_no_match[OF this, of U] assms(1) True show ?thesis
    by (auto simp: identify_element_def Let_def split: if_splits option.splits sum.splits)
qed

lemma parse_elements_loop_no_code_block:
  assumes "parse_elements_loop U lines fmt i pos es = Some r"
  shows "\<forall>res. r = Inr res \<longrightarrow> (\<forall>l\<in>set lines. 10 \<notin> set l) \<longrightarrow>
           (\<forall>e\<in>set es. element_type e \<noteq> CODE_BLOCK) \<longrightarrow>
           (\<forall>e\<in>set res. element_type e \<noteq> CODE_BLOCK)"
proof (rule parse_elements_loop.raw_induct[where P = "\<lambda>U lines fmt i pos es r.
    \<forall>res. r = Inr res \<longrightarrow> (\<forall>l\<in>set lines. 10 \<notin> set l) \<longrightarrow>
           (\<forall>e\<in>set es. element_type e \<noteq> CODE_BLOCK) \<longrightarrow>
           (\<forall>e\<in>set res. element_type e \<noteq> CODE_BLOCK)", OF _ assms])
  fix loop :: "ucd \<Rightarrow> ustr list \<Rightarrow> doc_format \<Rightarrow> nat \<Rightarrow> nat \<Rightarrow> DocumentElement list
      \<Rightarrow> (error + DocumentElement list) option"
    and U lines fmt i pos es r
  assume IH: "\<And>U lines fmt i pos es r. loop U lines fmt i pos es = Some r \<Longrightarrow>
      \<forall>res. r = Inr res \<longrightarrow> (\<forall>l\<in>set lines. 10 \<notin> set l) \<longrightarrow>
           (\<forall>e\<in>set es. element_type e \<noteq> CODE_BLOCK) \<longrightarrow>
           (\<forall>e\<in>set res. element_type e \<noteq> CODE_BLOCK)"
  assume body: "(if i < length lines then
        (if strip (lines ! i) = [] then loop U lines fmt (i + 1) pos es
         else case identify_element U lines i fmt of
           Inl e \<Rightarrow> Some (Inl e)
         | Inr (ty, lv, content_lines, consumed) \<Rightarrow>
             if ty \<noteq> UNKNOWN then
               loop U lines fmt (i + consumed) (pos + 1)
                 (es @ [new_element content_lines ty lv pos i consumed])
             else
               (let paragraph_lines = extract_paragraph U lines i in
                loop U lines fmt (i + length paragraph_lines) (pos + 1)
                  (es @ [new_element paragraph_lines PARAGRAPH 0 pos i (length paragraph_lines)])))
      else Some (Inr es)) = Some r"
  show "\<forall>res. r = Inr res \<longrightarrow> (\<forall>l\<in>set lines. 10 \<notin> set l) \<longrightarrow>
           (\<forall>e\<in>set es. element_type e \<noteq> CODE_BLOCK) \<longrightarrow>
           (\<forall>e\<in>set res. element_type e \<noteq> CODE_BLOCK)"
  proof (intro allI impI)
    fix res
    assume r: "r = Inr res" and nl: "\<forall>l\<in>set lines. 10 \<notin> set l"
      and ok: "\<forall>e\<in>set es. element_type e \<noteq> CODE_BLOCK"
    show "\<forall>e\<in>set res. element_type e \<noteq> CODE_BLOCK"
    proof (cases "i < length lines")
      case False
      with body r ok show ?thesis by simp
    next
      case lt: True
      show ?thesis
      proof (cases "strip (lines ! i) = []")
        case True
        with body lt have "loop U lines fmt (i + 1) pos es = Some r" by simp
        from IH[OF this] r nl ok show ?thesis by blast
      next
        case ne: False
        show ?thesis
        proof (cases "identify_element U lines i fmt")
          case (Inl e)
          with body lt ne r show ?thesis by simp
        next
          case (Inr t)
          obtain ty lv cl consumed where t: "t = (ty, lv, cl, consumed)" by (cases t) auto
          from identify_element_no_code_block[OF Inr[unfolded t] nl]
          have nc: "ty \<noteq> CODE_BLOCK" .
          show ?thesis
          proof (cases "ty = UNKNOWN")
            case True
            let ?pl = "extract_paragraph U lines i"
            let ?e = "new_element ?pl PARAGRAPH 0 pos i (length ?pl)"
            have ok': "\<forall>e\<in>set (es @ [?e]). element_type e \<noteq> CODE_BLOCK"
              using ok by (simp add: new_element_def)
            from body lt ne Inr t True
            have "loop U lines fmt (i + length ?pl) (pos + 1) (es @ [?e]) = Some r"
              by (simp add: Let_def)
            from IH[OF this] r nl ok' show ?thesis by blast
          next
            case False
            let ?e = "new_element cl ty lv pos i consumed"
            have ok': "\<forall>e\<in>set (es @ [?e]). element_type e \<noteq> CODE_BLOCK"
              using ok nc by (simp add: new_element_def)
            from body lt ne Inr t False
            have "loop U lines fmt (i + consumed) (pos + 1) (es @ [?e]) = Some r"
              by (simp add: Let_def)
            from IH[OF this] r nl ok' show ?thesis by blast
          qed
        qed
      qed
    qed
  qed
qed

lemma parse_never_yields_code_block:
  assumes "parse_document U cont ft = Some (Inr S)" and "e \<in> set (elements S)"
  shows "element_type e \<noteq> CODE_BLOCK"
proof (cases "cont = [] \<or> strip cont = []")
  case True
  with assms show ?thesis by (auto simp: parse_document_def)
next
  case False
  with assms(1) obtain es where es: "parse_elements U (split_nl cont) (detect_format cont ft) = Some (Inr es)"
    and S: "elements S = fst (build_hierarchy es)"
    by (auto simp: parse_document_def Let_def split: option.splits sum.splits prod.splits)
  have nl: "\<forall>l\<in>set (split_nl cont). 10 \<notin> set l"
    using split_nl_no_newline by blast
  from parse_elements_loop_no_code_block[OF es[unfolded parse_elements_def]] nl
  have "\<forall>x\<in>set es. element_type x \<noteq> CODE_BLOCK" by simp
  then have "CODE_BLOCK \<notin> set (map element_type es)" by auto
  with build_hierarchy_loop_fields[of es "[]" Map.empty] S
  have "CODE_BLOCK \<notin> set (map element_type (elements S))" by (simp add: build_hierarchy_def)
  with assms(2) show ?thesis by (metis imageI set_map)
qed

lemma hash_indented_identify:
  "identify_element ucd_sample [hash_indented] 0 PlainText = Inr (UNKNOWN, 0, [], 0)"
  by (simp add: hash_indented_def identify_element_def pattern_defs char_defs ucd_sample_def)

lemma hash_indented_paragraph: "extract_paragraph ucd_sample [hash_indented] 0 = []"
  by (simp add: hash_indented_def extract_paragraph_def is_structured_line_def pattern_defs
      char_defs Let_def)

lemma hash_indented_not_blank: "strip hash_indented \<noteq> []"
  by (simp add: hash_indented_def char_defs)

lemma hash_indented_never_returns:
  assumes "parse_elements_loop U lines fmt i pos es = Some r"
  shows "\<not> (U = ucd_sample \<and> lines = [hash_indented] \<and> fmt = PlainText \<and> i = 0)"
proof (rule parse_elements_loop.raw_induct[where P = "\<lambda>U lines fmt i pos es r.
    \<not> (U = ucd_sample \<and> lines = [hash_indented] \<and> fmt = PlainText \<and> i = 0)", OF _ assms])
  fix loop :: "ucd \<Rightarrow> ustr list \<Rightarrow> doc_format \<Rightarrow> nat \<Rightarrow> nat \<Rightarrow> DocumentElement list
      \<Rightarrow> (error + DocumentElement list) option"
    and U lines fmt i pos es r
  assume IH: "\<And>U lines fmt i pos es r. loop U lines fmt i pos es = Some r \<Longrightarrow>
      \<not> (U = ucd_sample \<and> lines = [hash_indented] \<and> fmt = PlainText \<and> i = 0)"
  assume body: "(if i < length lines then
        (if strip (lines ! i) = [] then loop U lines fmt (i + 1) pos es
         else case identify_element U lines i fmt of
           Inl e \<Rightarrow> Some (Inl e)
         | Inr (ty, lv, content_lines, consumed) \<Rightarrow>
             if ty \<noteq> UNKNOWN then
               loop U lines fmt (i + consumed) (pos + 1)
                 (es @ [new_element content_lines ty lv pos i consumed])
             else
               (let paragraph_lines = extract_paragraph U lines i in
                loop U lines fmt (i + length paragraph_lines) (pos + 1)
                  (es @ [new_element paragraph_lines PARAGRAPH 0 pos i (length paragraph_lines)])))
      else Some (Inr es)) = Some r"
  show "\<not> (U = ucd_sample \<and> lines = [hash_indented] \<and> fmt = PlainText \<and> i = 0)"
  proof
    assume a: "U = ucd_sample \<and> lines = [hash_indented] \<and> fmt = PlainText \<and> i = 0"
    with body have "loop ucd_sample [hash_indented] PlainText 0 (pos + 1)
        (es @ [new_element [] PARAGRAPH 0 pos 0 0]) = Some r"
      by (simp add: hash_indented_identify hash_indented_paragraph hash_indented_not_blank)
    from IH[OF this] show False by simp
  qed
qed

lemma hash_indented_loops:
  "parse_document ucd_sample hash_indented ''unknown'' = None"
proof -
  have "parse_elements ucd_sample [hash_indented] PlainText = None"
    using hash_indented_never_returns[of ucd_sample "[hash_indented]" PlainText 0 0 "[]"]
    by (cases "parse_elements ucd_sample [hash_indented] PlainText")
      (auto simp: parse_elements_def)
  moreover have "detect_format hash_indented ''unknown'' = PlainText"
    by (simp add: hash_indented_def detect_format_def pattern_defs char_defs)
  moreover have "split_nl hash_indented = [hash_indented]"
    by (simp add: hash_indented_def T_def)
  moreover have "hash_indented \<noteq> []"
    by (simp add: hash_indented_def T_def)
  ultimately show ?thesis
    using hash_indented_not_blank by (simp add: parse_document_def)
qed

end
